theory Spec2Isabelle
  imports Main
begin

section \<open>Values on the wire\<close>

text \<open>
  Everything that crosses the socket is JSON. Numbers are kept as integers (request
  identifiers, versions and timestamps are integers; fractions play no role in
  \<^verbatim>\<open>space.ts\<close>). An object is its list of fields in order.
\<close>

datatype jsval =
    JUndefined
  | JNull
  | JBool bool
  | JNum int
  | JStr string
  | JArr "jsval list"
  | JObj "(string \<times> jsval) list"

text \<open>JavaScript's \<^verbatim>\<open>if (v)\<close>: the falsy values are undefined, null, false, 0 and the empty string.\<close>

fun truthy :: "jsval \<Rightarrow> bool" where
  "truthy JUndefined = False"
| "truthy JNull = False"
| "truthy (JBool b) = b"
| "truthy (JNum n) = (n \<noteq> 0)"
| "truthy (JStr s) = (s \<noteq> [])"
| "truthy (JArr xs) = True"
| "truthy (JObj fs) = True"

text \<open>
  \<^verbatim>\<open>a === b\<close> on two values that were deserialised from the wire: primitives compare by
  value; two objects or arrays are never the same reference.
\<close>

fun strict_eq :: "jsval \<Rightarrow> jsval \<Rightarrow> bool" where
  "strict_eq JUndefined JUndefined = True"
| "strict_eq JNull JNull = True"
| "strict_eq (JBool a) (JBool b) = (a = b)"
| "strict_eq (JNum a) (JNum b) = (a = b)"
| "strict_eq (JStr a) (JStr b) = (a = b)"
| "strict_eq a b = False"

text \<open>\<^verbatim>\<open>o.f\<close> on an object: the field's value, undefined when the object has no such field.\<close>

fun field :: "string \<Rightarrow> jsval \<Rightarrow> jsval" where
  "field f (JObj fs) = (case map_of fs f of Some v \<Rightarrow> v | None \<Rightarrow> JUndefined)"
| "field f v = JUndefined"

text \<open>The \<open>i\<close>-th positional argument of a callback: undefined when fewer were passed.\<close>

definition arg :: "jsval list \<Rightarrow> nat \<Rightarrow> jsval" where
  "arg args i = (if i < length args then args ! i else JUndefined)"

section \<open>Response event names\<close>

text \<open>
  The template literal \<^verbatim>\<open>`${eventName}Resp${this.reqId}`\<close> renders the counter in
  decimal. The counter is modelled as a natural number: \<^verbatim>\<open>reqId++\<close> on a JavaScript
  number is exact below \<open>2^53\<close>, far beyond what a session allocates.
\<close>

definition digit :: "nat \<Rightarrow> char" where
  "digit d = char_of (48 + d)"

fun decimal :: "nat \<Rightarrow> string" where
  "decimal n = (if n < 10 then [digit n] else decimal (n div 10) @ [digit (n mod 10)])"

definition respName :: "string \<Rightarrow> nat \<Rightarrow> string" where
  "respName eventName i = eventName @ ''Resp'' @ decimal i"

definition is_digit :: "char \<Rightarrow> bool" where
  "is_digit c = (48 \<le> (of_char c :: nat) \<and> (of_char c :: nat) \<le> 57)"

section \<open>Updates and their wire form\<close>

text \<open>
  \<^verbatim>\<open>ChangeSet\<close>, \<^verbatim>\<open>StateEffect\<close> and \<^verbatim>\<open>Update\<close> belong to the CodeMirror library. A change
  set is a value of an arbitrary type \<open>'c\<close>; the library's \<^verbatim>\<open>toJSON\<close> and
  \<^verbatim>\<open>ChangeSet.fromJSON\<close> are parameters of the functions below (\<open>fromJSON\<close> returns
  \<open>None\<close> where the library throws). A state effect is its type and its value.
\<close>

datatype effect_type = cursorEffect | otherEffect string

datatype StateEffect = StateEffect effect_type jsval

text \<open>
  Modelled from the spec: \<^verbatim>\<open>cursorEffect\<close> is defined in \<^verbatim>\<open>./cursorEffect\<close>, which is not
  among the sources; \<^verbatim>\<open>cursorEffect.of(v)\<close> is the cursor effect carrying the raw value \<open>v\<close>.
\<close>

definition cursorEffect_of :: "jsval \<Rightarrow> StateEffect" where
  "cursorEffect_of v = StateEffect cursorEffect v"

fun effect_value :: "StateEffect \<Rightarrow> jsval" where
  "effect_value (StateEffect t v) = v"

text \<open>
  An update: \<open>clientID\<close> is a string for the updates \<^verbatim>\<open>pushUpdates\<close> receives and the raw
  wire value for those \<^verbatim>\<open>pullUpdates\<close> builds; \<open>effects\<close> is optional.
\<close>

record ('i, 'c) Update =
  clientID :: 'i
  changes :: 'c
  effects :: "StateEffect list option"

text \<open>What a promise can be rejected with.\<close>

datatype reason =
    RemoteCallError jsval  \<comment> \<open>\<^verbatim>\<open>reject(err)\<close>: the server's error indicator itself\<close>
  | TypeError              \<comment> \<open>a property read or a call on null or undefined\<close>
  | ChangeSetError         \<comment> \<open>\<^verbatim>\<open>ChangeSet.fromJSON\<close> threw\<close>

text \<open>The object literal of \<^verbatim>\<open>pushUpdates\<close>' \<^verbatim>\<open>fullUpdates.map\<close> (lines 85 to 89).\<close>

definition toWire :: "('c \<Rightarrow> jsval) \<Rightarrow> (string, 'c) Update \<Rightarrow> jsval" where
  "toWire toJSON u = JObj
     [(''clientID'', JStr (clientID u)),
      (''changes'', toJSON (changes u)),
      (''cursors'', (case effects u of
                       None \<Rightarrow> JUndefined
                     | Some es \<Rightarrow> JArr (map effect_value es)))]"

text \<open>
  \<^verbatim>\<open>u.effects?.map((e) => cursorEffect.of(e.value))\<close>: undefined when the field is null or
  undefined, a type error when it is not an array or an element is null or undefined.
\<close>

fun wire_effects :: "jsval \<Rightarrow> reason + StateEffect list option" where
  "wire_effects JUndefined = Inr None"
| "wire_effects JNull = Inr None"
| "wire_effects (JArr es) =
     (if JNull \<in> set es \<or> JUndefined \<in> set es then Inl TypeError
      else Inr (Some (map (\<lambda>e. cursorEffect_of (field ''value'' e)) es)))"
| "wire_effects v = Inl TypeError"

text \<open>The object literal of \<^verbatim>\<open>pullUpdates\<close>' \<^verbatim>\<open>updates.map\<close> (lines 104 to 108).\<close>

definition fromWire :: "(jsval \<Rightarrow> 'c option) \<Rightarrow> jsval \<Rightarrow> reason + (jsval, 'c) Update" where
  "fromWire fromJSON u =
     (if u = JNull \<or> u = JUndefined then Inl TypeError
      else case fromJSON (field ''changes'' u) of
        None \<Rightarrow> Inl ChangeSetError
      | Some c \<Rightarrow>
          (case wire_effects (field ''effects'' u) of
             Inl e \<Rightarrow> Inl e
           | Inr es \<Rightarrow> Inr \<lparr>clientID = field ''clientID'' u, changes = c, effects = es\<rparr>))"

fun fromWire_all :: "(jsval \<Rightarrow> 'c option) \<Rightarrow> jsval list \<Rightarrow> reason + (jsval, 'c) Update list" where
  "fromWire_all fromJSON [] = Inr []"
| "fromWire_all fromJSON (u # us) =
     (case fromWire fromJSON u of
        Inl e \<Rightarrow> Inl e
      | Inr x \<Rightarrow> (case fromWire_all fromJSON us of Inl e \<Rightarrow> Inl e | Inr xs \<Rightarrow> Inr (x # xs)))"

section \<open>The Space object\<close>

type_synonym KV = "string \<times> jsval"

text \<open>What a promise is resolved with.\<close>

datatype 'c val =
    JS jsval
  | Updates "(jsval, 'c) Update list"
  | CollabDocument jsval jsval "(string \<times> jsval) list"

datatype 'c outcome = Resolved "'c val" | Rejected reason

text \<open>
  What runs when the promise of a \<^verbatim>\<open>wsCall\<close> settles: the code after the \<^verbatim>\<open>await\<close> (or the
  \<^verbatim>\<open>then\<close> callback) of the method that made the call, with the promise that method returned.
\<close>

datatype cont =
    KInit                       \<comment> \<open>the constructor's \<^verbatim>\<open>then\<close> callback\<close>
  | KReturn nat                 \<comment> \<open>the method returns the call's result\<close>
  | KVoid nat                   \<comment> \<open>the method awaits the call and returns nothing\<close>
  | KPull nat                   \<comment> \<open>\<^verbatim>\<open>pullUpdates\<close>\<close>
  | KOpen nat                   \<comment> \<open>\<^verbatim>\<open>openPage\<close>\<close>
  | KBatch nat nat string "KV list"
      \<comment> \<open>\<^verbatim>\<open>indexBatchSet\<close>: its promise, the promise of the \<^verbatim>\<open>indexSet\<close> in flight, the page
         and the entries still to come\<close>

text \<open>What \<^verbatim>\<open>this.emit\<close> hands to the subscribers.\<close>

datatype SpaceEvent =
    Ev string "jsval list"
  | PageListUpdated "jsval list"

text \<open>
  The fields \<open>socket\<close>, \<open>reqId\<close> and \<open>allPages\<close> are the class's. \<open>socket\<close> says whether
  \<^verbatim>\<open>this.socket\<close> holds a transport; \<open>listeners\<close> are that transport's \<^verbatim>\<open>once\<close>
  registrations in order (event name, the promise the closure settles, what runs then) and
  \<open>sent\<close> is what was handed to its \<^verbatim>\<open>emit\<close>. \<open>allPages\<close> is the \<^verbatim>\<open>Set\<close> in insertion order:
  page metadata (the type \<^verbatim>\<open>PageMeta\<close> of \<^verbatim>\<open>./types\<close>, of which the code reads the field
  \<^verbatim>\<open>name\<close>) arrives as JSON objects, every deserialised object is a reference of its
  own, so a position in the list stands for a reference. The remaining fields observe the
  run: the events given to subscribers, the number of promises created, every call of a
  promise's \<^verbatim>\<open>resolve\<close> or \<^verbatim>\<open>reject\<close>, and every \<^verbatim>\<open>wsCall\<close> (its promise, event name and
  request identifier).
\<close>

record 'c Space =
  socket :: bool
  reqId :: nat
  allPages :: "jsval list"
  listeners :: "(string \<times> nat \<times> cont) list"
  sent :: "(string \<times> jsval list) list"
  events :: "SpaceEvent list"
  promises :: nat
  settled :: "(nat \<times> 'c outcome) list"
  calls :: "(nat \<times> string \<times> nat) list"

definition new_promise :: "'c Space \<Rightarrow> nat \<times> 'c Space" where
  "new_promise s = (promises s, s\<lparr>promises := promises s + 1\<rparr>)"

definition settle :: "nat \<Rightarrow> 'c outcome \<Rightarrow> 'c Space \<Rightarrow> 'c Space" where
  "settle p out s = s\<lparr>settled := settled s @ [(p, out)]\<rparr>"

subsection \<open>The event emitter\<close>

text \<open>
  The two handlers the constructor registers on itself (lines 47 to 62). \<^verbatim>\<open>Set.add\<close>
  appends, the object being a new reference; the \<^verbatim>\<open>forEach\<close> of the delete handler removes
  each entry whose name is strictly equal to the event's. Each handler ends by emitting
  \<^verbatim>\<open>pageListUpdated\<close> with the set, which no handler of the class listens to.
\<close>

definition pageCreated_handler :: "jsval \<Rightarrow> 'c Space \<Rightarrow> 'c Space" where
  "pageCreated_handler meta s =
     (let s1 = s\<lparr>allPages := allPages s @ [meta]\<rparr>
      in s1\<lparr>events := events s1 @ [PageListUpdated (allPages s1)]\<rparr>)"

definition pageDeleted_handler :: "jsval \<Rightarrow> 'c Space \<Rightarrow> 'c Space" where
  "pageDeleted_handler name s =
     (let s1 = s\<lparr>allPages := filter (\<lambda>meta. \<not> strict_eq name (field ''name'' meta)) (allPages s)\<rparr>
      in s1\<lparr>events := events s1 @ [PageListUpdated (allPages s1)]\<rparr>)"

text \<open>
  Modelled from the spec: the class \<^verbatim>\<open>EventEmitter\<close> of \<^verbatim>\<open>./event\<close>, whose \<^verbatim>\<open>on\<close> and \<^verbatim>\<open>emit\<close>
  the constructor uses, is not among the sources. By section 4.5 of the specification
  \<^verbatim>\<open>emit\<close> delivers synchronously to the subscribers registered for the name: here the
  emission is recorded in \<open>events\<close> for the subscribers outside the class, and the handler
  the constructor registered for that name, if any, runs.
\<close>

definition emit :: "string \<Rightarrow> jsval list \<Rightarrow> 'c Space \<Rightarrow> 'c Space" where
  "emit eventName args s =
     (let s1 = s\<lparr>events := events s @ [Ev eventName args]\<rparr>
      in if eventName = ''pageCreated'' then pageCreated_handler (arg args 0) s1
         else if eventName = ''pageDeleted'' then pageDeleted_handler (arg args 0) s1
         else s1)"

text \<open>The names the constructor forwards from the socket (lines 32 to 42).\<close>

definition forwarded :: "string list" where
  "forwarded = [''connect'', ''cursorSnapshot'', ''pageCreated'', ''pageChanged'', ''pageDeleted'']"

subsection \<open>The request correlator\<close>

text \<open>A continuation on a rejected call: the method's promise is rejected with the same reason.\<close>

fun fail_cont :: "cont \<Rightarrow> reason \<Rightarrow> 'c Space \<Rightarrow> 'c Space" where
  "fail_cont KInit e s = s"
| "fail_cont (KReturn p) e s = settle p (Rejected e) s"
| "fail_cont (KVoid p) e s = settle p (Rejected e) s"
| "fail_cont (KPull p) e s = settle p (Rejected e) s"
| "fail_cont (KOpen p) e s = settle p (Rejected e) s"
| "fail_cont (KBatch p q pageName rest) e s = settle p (Rejected e) (settle q (Rejected e) s)"

text \<open>
  \<^verbatim>\<open>wsCall\<close> (lines 65 to 77), with the continuation \<open>k\<close> its caller attaches to the promise.
  The executor increments the counter, registers the one-shot listener, then emits the
  request. Without a transport \<^verbatim>\<open>this.socket!.once\<close> throws inside the executor, after the
  increment, and the promise is rejected.
\<close>

definition wsCall :: "string \<Rightarrow> jsval list \<Rightarrow> cont \<Rightarrow> 'c Space \<Rightarrow> 'c Space" where
  "wsCall eventName args k s =
     (let (r, s1) = new_promise s;
          s2 = s1\<lparr>reqId := reqId s1 + 1\<rparr>;
          s3 = s2\<lparr>calls := calls s2 @ [(r, eventName, reqId s2)]\<rparr>
      in if socket s3
         then s3\<lparr>listeners := listeners s3 @ [(respName eventName (reqId s3), r, k)],
                 sent := sent s3 @ [(eventName, JNum (int (reqId s3)) # args)]\<rparr>
         else fail_cont k TypeError (settle r (Rejected TypeError) s3))"

subsection \<open>The methods\<close>

text \<open>Every method is \<^verbatim>\<open>async\<close>: it creates the promise it returns, then runs its body.\<close>

definition async_call ::
  "string \<Rightarrow> jsval list \<Rightarrow> (nat \<Rightarrow> cont) \<Rightarrow> 'c Space \<Rightarrow> nat \<times> 'c Space" where
  "async_call eventName args k s =
     (let (p, s1) = new_promise s in (p, wsCall eventName args (k p) s1))"

definition pushUpdates ::
  "('c \<Rightarrow> jsval) \<Rightarrow> string \<Rightarrow> int \<Rightarrow> (string, 'c) Update list \<Rightarrow> 'c Space \<Rightarrow> nat \<times> 'c Space" where
  "pushUpdates toJSON pageName version fullUpdates s =
     (let (p, s1) = new_promise s
      in if socket s1
         then (let updates = map (toWire toJSON) fullUpdates
               in (p, wsCall ''page.pushUpdates'' [JStr pageName, JNum version, JArr updates]
                        (KReturn p) s1))
         else (p, settle p (Resolved (JS (JBool False))) s1))"

definition pullUpdates :: "string \<Rightarrow> int \<Rightarrow> 'c Space \<Rightarrow> nat \<times> 'c Space" where
  "pullUpdates pageName version s =
     async_call ''page.pullUpdates'' [JStr pageName, JNum version] KPull s"

definition listPages :: "'c Space \<Rightarrow> nat \<times> 'c Space" where
  "listPages s =
     (let (p, s1) = new_promise s in (p, settle p (Resolved (JS (JArr (allPages s1)))) s1))"

definition openPage :: "string \<Rightarrow> 'c Space \<Rightarrow> nat \<times> 'c Space" where
  "openPage name s =
     (let (p, s1) = new_promise s;
          s2 = s1\<lparr>reqId := reqId s1 + 1\<rparr>
      in (p, wsCall ''page.openPage'' [JStr name] (KOpen p) s2))"

definition closePage :: "string \<Rightarrow> 'c Space \<Rightarrow> nat \<times> 'c Space" where
  "closePage name s =
     (let (p, s1) = new_promise s
      in if socket s1
         then (p, settle p (Resolved (JS JUndefined))
                    (s1\<lparr>sent := sent s1 @ [(''page.closePage'', [JStr name])]\<rparr>))
         else (p, settle p (Rejected TypeError) s1))"

definition readPage :: "string \<Rightarrow> 'c Space \<Rightarrow> nat \<times> 'c Space" where
  "readPage name s = async_call ''page.readPage'' [JStr name] KReturn s"

definition writePage :: "string \<Rightarrow> string \<Rightarrow> 'c Space \<Rightarrow> nat \<times> 'c Space" where
  "writePage name text s = async_call ''page.writePage'' [JStr name, JStr text] KReturn s"

definition deletePage :: "string \<Rightarrow> 'c Space \<Rightarrow> nat \<times> 'c Space" where
  "deletePage name s = async_call ''page.deletePage'' [JStr name] KReturn s"

definition getPageMeta :: "string \<Rightarrow> 'c Space \<Rightarrow> nat \<times> 'c Space" where
  "getPageMeta name s = async_call ''page.getPageMeta'' [JStr name] KReturn s"

definition indexSet :: "string \<Rightarrow> string \<Rightarrow> jsval \<Rightarrow> 'c Space \<Rightarrow> nat \<times> 'c Space" where
  "indexSet pageName key v s = async_call ''index.set'' [JStr pageName, JStr key, v] KVoid s"

text \<open>
  The loop of \<^verbatim>\<open>indexBatchSet\<close> (lines 152 to 154) from the entries still to come: with none
  left the method returns; otherwise it calls \<^verbatim>\<open>indexSet\<close> for the first and suspends on it.
\<close>

definition batch_loop :: "nat \<Rightarrow> string \<Rightarrow> KV list \<Rightarrow> 'c Space \<Rightarrow> 'c Space" where
  "batch_loop p pageName kvs s =
     (case kvs of
        [] \<Rightarrow> settle p (Resolved (JS JUndefined)) s
      | (key, v) # rest \<Rightarrow>
          (let (q, s1) = new_promise s
           in wsCall ''index.set'' [JStr pageName, JStr key, v] (KBatch p q pageName rest) s1))"

definition indexBatchSet :: "string \<Rightarrow> KV list \<Rightarrow> 'c Space \<Rightarrow> nat \<times> 'c Space" where
  "indexBatchSet pageName kvs s =
     (let (p, s1) = new_promise s in (p, batch_loop p pageName kvs s1))"

definition indexGet :: "string \<Rightarrow> string \<Rightarrow> 'c Space \<Rightarrow> nat \<times> 'c Space" where
  "indexGet pageName key s = async_call ''index.get'' [JStr pageName, JStr key] KReturn s"

definition indexScanPrefixForPage :: "string \<Rightarrow> string \<Rightarrow> 'c Space \<Rightarrow> nat \<times> 'c Space" where
  "indexScanPrefixForPage pageName keyPrefix s =
     async_call ''index.scanPrefixForPage'' [JStr pageName, JStr keyPrefix] KReturn s"

definition indexScanPrefixGlobal :: "string \<Rightarrow> 'c Space \<Rightarrow> nat \<times> 'c Space" where
  "indexScanPrefixGlobal keyPrefix s =
     async_call ''index.scanPrefixGlobal'' [JStr keyPrefix] KReturn s"

definition indexDeletePrefixForPage :: "string \<Rightarrow> string \<Rightarrow> 'c Space \<Rightarrow> nat \<times> 'c Space" where
  "indexDeletePrefixForPage pageName keyPrefix s =
     async_call ''index.deletePrefixForPage'' [JStr keyPrefix] KVoid s"

definition indexDelete :: "string \<Rightarrow> string \<Rightarrow> 'c Space \<Rightarrow> nat \<times> 'c Space" where
  "indexDelete pageName key s = async_call ''index.delete'' [JStr pageName, JStr key] KVoid s"

subsection \<open>Responses\<close>

text \<open>
  \<^verbatim>\<open>Object.entries\<close> of the cursors of a page, and the value \<^verbatim>\<open>openPage\<close> settles with
  (lines 119 to 123). The document holds the arguments given to \<^verbatim>\<open>Text.of\<close>, to the
  constructor of \<^verbatim>\<open>CollabDocument\<close> and to \<^verbatim>\<open>Map\<close>; those three belong to other modules.
\<close>

fun entries :: "jsval \<Rightarrow> (string \<times> jsval) list" where
  "entries (JObj fs) = fs"
| "entries (JArr xs) = zip (map decimal [0..<length xs]) xs"
| "entries (JStr cs) = zip (map decimal [0..<length cs]) (map (\<lambda>c. JStr [c]) cs)"
| "entries v = []"

definition open_result :: "jsval \<Rightarrow> 'c outcome" where
  "open_result pageJSON =
     (if pageJSON = JNull \<or> pageJSON = JUndefined then Rejected TypeError
      else if field ''cursors'' pageJSON = JNull \<or> field ''cursors'' pageJSON = JUndefined
      then Rejected TypeError
      else Resolved (CollabDocument (field ''text'' pageJSON) (field ''version'' pageJSON)
             (entries (field ''cursors'' pageJSON))))"

definition pull_result :: "(jsval \<Rightarrow> 'c option) \<Rightarrow> jsval \<Rightarrow> 'c outcome" where
  "pull_result fromJSON updates =
     (case updates of
        JArr us \<Rightarrow> (case fromWire_all fromJSON us of
                      Inl e \<Rightarrow> Rejected e
                    | Inr xs \<Rightarrow> Resolved (Updates xs))
      | _ \<Rightarrow> Rejected TypeError)"

text \<open>
  A continuation on a resolved call. For the constructor (lines 43 to 46) \<^verbatim>\<open>new Set(pages)\<close>
  holds the elements of an array and is empty for null and undefined. The result is typed
  as a list of page objects: for a number, a boolean or an object the callback throws and
  nothing changes, and a string, which JavaScript would iterate, is treated the same way.
\<close>

fun succeed_cont :: "(jsval \<Rightarrow> 'c option) \<Rightarrow> cont \<Rightarrow> jsval \<Rightarrow> 'c Space \<Rightarrow> 'c Space" where
  "succeed_cont fromJSON KInit result s =
     (case result of
        JArr pages \<Rightarrow> (let s1 = s\<lparr>allPages := pages\<rparr>
                       in s1\<lparr>events := events s1 @ [PageListUpdated (allPages s1)]\<rparr>)
      | JNull \<Rightarrow> (let s1 = s\<lparr>allPages := []\<rparr>
                  in s1\<lparr>events := events s1 @ [PageListUpdated (allPages s1)]\<rparr>)
      | JUndefined \<Rightarrow> (let s1 = s\<lparr>allPages := []\<rparr>
                       in s1\<lparr>events := events s1 @ [PageListUpdated (allPages s1)]\<rparr>)
      | _ \<Rightarrow> s)"
| "succeed_cont fromJSON (KReturn p) result s = settle p (Resolved (JS result)) s"
| "succeed_cont fromJSON (KVoid p) result s = settle p (Resolved (JS JUndefined)) s"
| "succeed_cont fromJSON (KPull p) result s = settle p (pull_result fromJSON result) s"
| "succeed_cont fromJSON (KOpen p) result s = settle p (open_result result) s"
| "succeed_cont fromJSON (KBatch p q pageName rest) result s =
     batch_loop p pageName rest (settle q (Resolved (JS JUndefined)) s)"

text \<open>
  The listener \<^verbatim>\<open>wsCall\<close> registers (lines 68 to 74), called with the arguments of the
  response event, followed by the continuation of the promise it settles. In the code the
  listener only calls \<^verbatim>\<open>resolve\<close> or \<^verbatim>\<open>reject\<close>, and the continuation runs as a microtask
  when the current turn has ended; running it at once, as here, is the code's behaviour
  when the response is the last event dispatched in its turn. What depends on the order
  of a continuation and the handlers of other events of the same turn is stated on
  \<open>registry_run\<close> below, which takes the handlers in the order in which they run.
\<close>

definition fire :: "(jsval \<Rightarrow> 'c option) \<Rightarrow> jsval list \<Rightarrow> nat \<times> cont \<Rightarrow> 'c Space \<Rightarrow> 'c Space" where
  "fire fromJSON args l s =
     (let err = arg args 0; result = arg args 1; r = fst l; k = snd l
      in if truthy err
         then fail_cont k (RemoteCallError err) (settle r (Rejected (RemoteCallError err)) s)
         else succeed_cont fromJSON k result (settle r (Resolved (JS result)) s))"

text \<open>
  An event arriving on the socket: the forwarding listeners of the constructor were
  registered first and run first; then every one-shot listener of that name runs, once
  removed from the socket.
\<close>

definition deliver :: "(jsval \<Rightarrow> 'c option) \<Rightarrow> string \<Rightarrow> jsval list \<Rightarrow> 'c Space \<Rightarrow> 'c Space" where
  "deliver fromJSON eventName args s =
     (if \<not> socket s then s
      else
        let s1 = (if eventName \<in> set forwarded then emit eventName args s else s);
            hit = filter (\<lambda>l. fst l = eventName) (listeners s1);
            s2 = s1\<lparr>listeners := filter (\<lambda>l. fst l \<noteq> eventName) (listeners s1)\<rparr>
        in foldl (\<lambda>st l. fire fromJSON args (snd l) st) s2 hit)"

subsection \<open>Construction and runs\<close>

text \<open>The constructor (lines 28 to 63), on a transport.\<close>

definition construct :: "'c Space" where
  "construct =
     wsCall ''page.listPages'' [] KInit
       \<lparr>socket = True, reqId = 0, allPages = [], listeners = [], sent = [], events = [],
        promises = 0, settled = [], calls = []\<rparr>"

text \<open>What can happen to a Space: a method is called, or an event arrives on the socket.\<close>

datatype 'c op =
    PushUpdates string int "(string, 'c) Update list"
  | PullUpdates string int
  | ListPages
  | OpenPage string
  | ClosePage string
  | ReadPage string
  | WritePage string string
  | DeletePage string
  | GetPageMeta string
  | IndexSet string string jsval
  | IndexBatchSet string "KV list"
  | IndexGet string string
  | IndexScanPrefixForPage string string
  | IndexScanPrefixGlobal string
  | IndexDeletePrefixForPage string string
  | IndexDelete string string
  | Deliver string "jsval list"

fun step :: "('c \<Rightarrow> jsval) \<Rightarrow> (jsval \<Rightarrow> 'c option) \<Rightarrow> 'c op \<Rightarrow> 'c Space \<Rightarrow> 'c Space" where
  "step toJSON fromJSON (PushUpdates pageName version us) s = snd (pushUpdates toJSON pageName version us s)"
| "step toJSON fromJSON (PullUpdates pageName version) s = snd (pullUpdates pageName version s)"
| "step toJSON fromJSON ListPages s = snd (listPages s)"
| "step toJSON fromJSON (OpenPage name) s = snd (openPage name s)"
| "step toJSON fromJSON (ClosePage name) s = snd (closePage name s)"
| "step toJSON fromJSON (ReadPage name) s = snd (readPage name s)"
| "step toJSON fromJSON (WritePage name text) s = snd (writePage name text s)"
| "step toJSON fromJSON (DeletePage name) s = snd (deletePage name s)"
| "step toJSON fromJSON (GetPageMeta name) s = snd (getPageMeta name s)"
| "step toJSON fromJSON (IndexSet pageName key v) s = snd (indexSet pageName key v s)"
| "step toJSON fromJSON (IndexBatchSet pageName kvs) s = snd (indexBatchSet pageName kvs s)"
| "step toJSON fromJSON (IndexGet pageName key) s = snd (indexGet pageName key s)"
| "step toJSON fromJSON (IndexScanPrefixForPage pageName keyPrefix) s = snd (indexScanPrefixForPage pageName keyPrefix s)"
| "step toJSON fromJSON (IndexScanPrefixGlobal keyPrefix) s = snd (indexScanPrefixGlobal keyPrefix s)"
| "step toJSON fromJSON (IndexDeletePrefixForPage pageName keyPrefix) s = snd (indexDeletePrefixForPage pageName keyPrefix s)"
| "step toJSON fromJSON (IndexDelete pageName key) s = snd (indexDelete pageName key s)"
| "step toJSON fromJSON (Deliver eventName args) s = deliver fromJSON eventName args s"

fun run :: "('c \<Rightarrow> jsval) \<Rightarrow> (jsval \<Rightarrow> 'c option) \<Rightarrow> 'c op list \<Rightarrow> 'c Space \<Rightarrow> 'c Space" where
  "run toJSON fromJSON [] s = s"
| "run toJSON fromJSON (x # xs) s = run toJSON fromJSON xs (step toJSON fromJSON x s)"

section \<open>Well-formed states\<close>

text \<open>
  The promises a continuation will settle, the promises a registered listener stands for
  (the call's own, then its continuation's), and every promise that is settled or awaited.
\<close>
fun cont_pids :: "cont \<Rightarrow> nat list" where
  "cont_pids KInit = []"
| "cont_pids (KReturn p) = [p]"
| "cont_pids (KVoid p) = [p]"
| "cont_pids (KPull p) = [p]"
| "cont_pids (KOpen p) = [p]"
| "cont_pids (KBatch p q pageName rest) = [p, q]"

definition pend :: "string \<times> nat \<times> cont \<Rightarrow> nat list" where
  "pend l = fst (snd l) # cont_pids (snd (snd l))"

definition used :: "'c Space \<Rightarrow> nat list" where
  "used s = map fst (settled s) @ concat (map pend (listeners s))"

text \<open>
  The request identifier of a logged call, and the one an emitted message carries: the
  first argument after the event name when it is a number (\<^verbatim>\<open>page.closePage\<close> carries none).
\<close>

definition call_id :: "nat \<times> string \<times> nat \<Rightarrow> nat" where
  "call_id c = snd (snd c)"

definition request_id :: "string \<times> jsval list \<Rightarrow> nat option" where
  "request_id m = (case snd m of JNum n # rest \<Rightarrow> Some (nat n) | _ \<Rightarrow> None)"

fun request_ids :: "(string \<times> jsval list) list \<Rightarrow> nat list" where
  "request_ids [] = []"
| "request_ids (m # ms) =
     (case request_id m of None \<Rightarrow> request_ids ms | Some i \<Rightarrow> i # request_ids ms)"

text \<open>
  The invariant of the reachable states: identifiers grow and stay within the counter,
  the emitted identifiers are those of the calls, every listener carries the response
  name of a logged call and no two share a name, and no promise is both settled and
  awaited or awaited twice.
\<close>

definition ids_ok :: "'c Space \<Rightarrow> bool" where
  "ids_ok s \<longleftrightarrow>
     sorted_wrt (<) (map call_id (calls s)) \<and>
     (\<forall>c \<in> set (calls s). 0 < call_id c \<and> call_id c \<le> reqId s)"

definition sent_ok :: "'c Space \<Rightarrow> bool" where
  "sent_ok s \<longleftrightarrow> request_ids (sent s) = map call_id (calls s)"

definition names_ok :: "'c Space \<Rightarrow> bool" where
  "names_ok s \<longleftrightarrow>
     distinct (map fst (listeners s)) \<and>
     (\<forall>l \<in> set (listeners s). \<exists>e i. fst l = respName e i \<and> (fst (snd l), e, i) \<in> set (calls s))"

definition pids_ok :: "'c Space \<Rightarrow> bool" where
  "pids_ok s \<longleftrightarrow> distinct (used s) \<and> (\<forall>p \<in> set (used s). p < promises s)"

definition well_formed :: "'c Space \<Rightarrow> bool" where
  "well_formed s \<longleftrightarrow> socket s \<and> ids_ok s \<and> sent_ok s \<and> names_ok s \<and> pids_ok s"

text \<open>
  The promises of calls are promises that exist, and no continuation settles the promise of
  a call: continuations settle the promises of methods.
\<close>

definition conts_ok :: "'c Space \<Rightarrow> bool" where
  "conts_ok s \<longleftrightarrow>
     (\<forall>c \<in> set (calls s). fst c < promises s) \<and>
     (\<forall>l \<in> set (listeners s). \<forall>p \<in> set (cont_pids (snd (snd l))). p \<notin> fst ` set (calls s))"

text \<open>
  Every call is settled or still has its listener registered under its response name,
  except the calls whose promises are in \<open>X\<close> (the one whose listener is running).
\<close>

definition awaited_but :: "nat set \<Rightarrow> 'c Space \<Rightarrow> bool" where
  "awaited_but X s \<longleftrightarrow>
     (\<forall>c \<in> set (calls s).
        fst c \<in> X \<or> fst c \<in> fst ` set (settled s) \<or>
        (\<exists>k. (respName (fst (snd c)) (call_id c), fst c, k) \<in> set (listeners s)))"

text \<open>What holds in every state of a session.\<close>

definition invariant :: "'c Space \<Rightarrow> bool" where
  "invariant s \<longleftrightarrow> well_formed s \<and> conts_ok s \<and> awaited_but {} s"

text \<open>The outcome the listener of \<^verbatim>\<open>wsCall\<close> gives its promise, from the arguments of the response.\<close>

definition response :: "jsval list \<Rightarrow> 'c outcome" where
  "response args =
     (if truthy (arg args 0) then Rejected (RemoteCallError (arg args 0))
      else Resolved (JS (arg args 1)))"

text \<open>
  The three pieces of code that write \<open>allPages\<close>, as they run: the callback the constructor
  gives to \<^verbatim>\<open>then\<close> (lines 44 and 45) with the result of \<^verbatim>\<open>page.listPages\<close>, the handler of
  \<^verbatim>\<open>pageCreated\<close> with the event's page and the handler of \<^verbatim>\<open>pageDeleted\<close> with the event's
  name. The two handlers run inside the dispatch of their event; the callback runs as a
  microtask after the listener of the response has resolved the promise, so the handlers of
  events dispatched in the same turn as the response run before it. A list of updates
  names the three in the order in which they run, whatever the order of arrival was.
\<close>

datatype registry_update = Listed jsval | Created jsval | Deleted jsval

fun registry_step :: "(jsval \<Rightarrow> 'c option) \<Rightarrow> registry_update \<Rightarrow> 'c Space \<Rightarrow> 'c Space" where
  "registry_step fromJSON (Listed result) s = succeed_cont fromJSON KInit result s"
| "registry_step fromJSON (Created meta) s = pageCreated_handler meta s"
| "registry_step fromJSON (Deleted name) s = pageDeleted_handler name s"

fun registry_run :: "(jsval \<Rightarrow> 'c option) \<Rightarrow> registry_update list \<Rightarrow> 'c Space \<Rightarrow> 'c Space" where
  "registry_run fromJSON [] s = s"
| "registry_run fromJSON (u # us) s = registry_run fromJSON us (registry_step fromJSON u s)"

text \<open>
  An update that brings no second entry of a name: the list handed to the callback has no
  name twice, and the page handed to the \<^verbatim>\<open>pageCreated\<close> handler has a name that no entry
  of the set has when the handler runs. The condition is on the set the code holds at
  that moment.
\<close>

fun fresh_update :: "registry_update \<Rightarrow> 'c Space \<Rightarrow> bool" where
  "fresh_update (Listed result) s =
     (case result of
        JArr pages \<Rightarrow> distinct (map (field ''name'') pages)
      | _ \<Rightarrow> True)"
| "fresh_update (Created meta) s =
     (field ''name'' meta \<notin> set (map (field ''name'') (allPages s)))"
| "fresh_update (Deleted name) s = True"

fun fresh_updates :: "(jsval \<Rightarrow> 'c option) \<Rightarrow> registry_update list \<Rightarrow> 'c Space \<Rightarrow> bool" where
  "fresh_updates fromJSON [] s = True"
| "fresh_updates fromJSON (u # us) s =
     (fresh_update u s \<and> fresh_updates fromJSON us (registry_step fromJSON u s))"

text \<open>
  The requests of a batch: one \<^verbatim>\<open>index.set\<close> per entry, in the order of the list, with
  consecutive identifiers from \<open>i\<close> on.
\<close>

fun batch_requests :: "string \<Rightarrow> nat \<Rightarrow> KV list \<Rightarrow> (string \<times> jsval list) list" where
  "batch_requests pageName i [] = []"
| "batch_requests pageName i ((key, v) # kvs) =
     (''index.set'', [JNum (int i), JStr pageName, JStr key, v]) # batch_requests pageName (Suc i) kvs"

text \<open>The server acknowledges the latest request, \<open>n\<close> times in a row.\<close>

fun acknowledge :: "(jsval \<Rightarrow> 'c option) \<Rightarrow> nat \<Rightarrow> 'c Space \<Rightarrow> 'c Space" where
  "acknowledge f 0 s = s"
| "acknowledge f (Suc n) s =
     acknowledge f n (deliver f (respName ''index.set'' (reqId s)) [JNull] s)"

section \<open>Decimal rendering is injective\<close>

lemma decimal_unfold:
  "decimal n = (if n < 10 then [digit n] else decimal (n div 10) @ [digit (n mod 10)])"
  by (rule decimal.simps)

declare decimal.simps [simp del]

lemma digit_inj: "a < 10 \<Longrightarrow> b < 10 \<Longrightarrow> digit a = digit b \<Longrightarrow> a = b"
proof -
  assume a: "a < 10" and b: "b < 10" and e: "digit a = digit b"
  from e have "(of_char (digit a) :: nat) = of_char (digit b)" by simp
  with a b show "a = b" by (simp add: digit_def)
qed

lemma is_digit_digit: "d < 10 \<Longrightarrow> is_digit (digit d)"
  by (simp add: is_digit_def digit_def)

lemma decimal_nonempty: "decimal n \<noteq> []"
  by (subst decimal_unfold) simp

lemma decimal_digits: "\<forall>c \<in> set (decimal n). is_digit c"
proof (induction n rule: decimal.induct)
  case (1 n)
  show ?case
  proof (cases "n < 10")
    case True
    then show ?thesis by (subst decimal_unfold) (simp add: is_digit_digit)
  next
    case False
    with 1 show ?thesis by (subst decimal_unfold) (simp add: is_digit_digit)
  qed
qed

lemma decimal_inj: "decimal n = decimal m \<Longrightarrow> n = m"
proof (induction n arbitrary: m rule: decimal.induct)
  case (1 n)
  show ?case
  proof (cases "n < 10")
    case small_n: True
    show ?thesis
    proof (cases "m < 10")
      case True
      with small_n "1.prems" show ?thesis
        by (simp add: decimal_unfold [of n] decimal_unfold [of m] digit_inj)
    next
      case False
      with small_n "1.prems" decimal_nonempty [of "m div 10"] show ?thesis
        by (simp add: decimal_unfold [of n] decimal_unfold [of m])
    qed
  next
    case big_n: False
    show ?thesis
    proof (cases "m < 10")
      case True
      with big_n "1.prems" decimal_nonempty [of "n div 10"] show ?thesis
        by (simp add: decimal_unfold [of n] decimal_unfold [of m])
    next
      case False
      with big_n "1.prems" have e: "decimal (n div 10) = decimal (m div 10)"
        and d: "digit (n mod 10) = digit (m mod 10)"
        by (simp_all add: decimal_unfold [of n] decimal_unfold [of m])
      from "1.IH" [OF big_n e] have "n div 10 = m div 10" .
      moreover from d have "n mod 10 = m mod 10" by (simp add: digit_inj)
      ultimately show ?thesis by (metis div_mult_mod_eq)
    qed
  qed
qed

lemma takeWhile_rev_suffix:
  assumes "\<forall>c \<in> set ds. P c" and "\<not> P x"
  shows "takeWhile P (rev (xs @ x # ds)) = rev ds"
proof -
  have "takeWhile P (rev ds @ x # rev xs) = rev ds @ takeWhile P (x # rev xs)"
    using assms(1) by (intro takeWhile_append2) simp
  with assms(2) show ?thesis by simp
qed

lemma respName_digits:
  "takeWhile is_digit (rev (respName e i)) = rev (decimal i)"
proof -
  have "respName e i = (e @ ''Res'') @ CHR ''p'' # decimal i"
    by (simp add: respName_def)
  moreover have "\<not> is_digit CHR ''p''" by (simp add: is_digit_def)
  ultimately show ?thesis
    using takeWhile_rev_suffix [where P = is_digit and x = "CHR ''p''" and ds = "decimal i"
        and xs = "e @ ''Res''"] decimal_digits [of i] by simp
qed

lemma respName_id_inj: "respName e i = respName e' j \<Longrightarrow> i = j"
proof -
  assume "respName e i = respName e' j"
  then have "takeWhile is_digit (rev (respName e i)) = takeWhile is_digit (rev (respName e' j))"
    by simp
  then have "decimal i = decimal j" by (simp add: respName_digits)
  then show "i = j" by (rule decimal_inj)
qed

lemma respName_inj: "respName e i = respName e' j \<longleftrightarrow> e = e' \<and> i = j"
proof
  assume h: "respName e i = respName e' j"
  then have ij: "i = j" by (rule respName_id_inj)
  with h show "e = e' \<and> i = j" by (simp add: respName_def)
qed simp

section \<open>The invariant is kept\<close>


subsection \<open>Identifiers, names and promises\<close>

lemma settle_fields [simp]:
  "socket (settle p out s) = socket s"
  "reqId (settle p out s) = reqId s"
  "allPages (settle p out s) = allPages s"
  "listeners (settle p out s) = listeners s"
  "sent (settle p out s) = sent s"
  "events (settle p out s) = events s"
  "promises (settle p out s) = promises s"
  "calls (settle p out s) = calls s"
  "settled (settle p out s) = settled s @ [(p, out)]"
  by (simp_all add: settle_def)

lemma new_promise_eq [simp]: "new_promise s = (promises s, s\<lparr>promises := Suc (promises s)\<rparr>)"
  by (simp add: new_promise_def)

lemma wsCall_socket:
  "socket s \<Longrightarrow> wsCall e a k s =
     s\<lparr>promises := Suc (promises s), reqId := Suc (reqId s),
       calls := calls s @ [(promises s, e, Suc (reqId s))],
       listeners := listeners s @ [(respName e (Suc (reqId s)), promises s, k)],
       sent := sent s @ [(e, JNum (int (Suc (reqId s))) # a)]\<rparr>"
  by (simp add: wsCall_def Let_def)

lemma request_ids_append: "request_ids (xs @ ys) = request_ids xs @ request_ids ys"
  by (induction xs) (auto split: option.splits)

lemma request_ids_call [simp]: "request_ids [(e, JNum (int n) # a)] = [n]"
  by (simp add: request_id_def)

lemma ids_ok_wsCall: "socket s \<Longrightarrow> ids_ok s \<Longrightarrow> ids_ok (wsCall e a k s)"
  by (auto simp: wsCall_socket ids_ok_def sorted_wrt_append call_id_def less_Suc_eq_le)

lemma sent_ok_wsCall: "socket s \<Longrightarrow> sent_ok s \<Longrightarrow> sent_ok (wsCall e a k s)"
  by (simp add: wsCall_socket sent_ok_def request_ids_append call_id_def request_id_def nat_add_distrib)

lemma names_fresh:
  assumes "ids_ok s" "names_ok s"
  shows "respName e (Suc (reqId s)) \<notin> fst ` set (listeners s)"
proof
  assume "respName e (Suc (reqId s)) \<in> fst ` set (listeners s)"
  then obtain l where l: "l \<in> set (listeners s)" "fst l = respName e (Suc (reqId s))" by auto
  with assms(2) obtain e' i where i: "fst l = respName e' i" "(fst (snd l), e', i) \<in> set (calls s)"
    unfolding names_ok_def by blast
  from i(2) assms(1) have "i \<le> reqId s" by (force simp: ids_ok_def call_id_def)
  moreover from l(2) i(1) have "i = Suc (reqId s)" by (simp add: respName_inj)
  ultimately show False by simp
qed

lemma names_ok_wsCall:
  assumes "socket s" "ids_ok s" "names_ok s"
  shows "names_ok (wsCall e a k s)"
proof -
  note fresh = names_fresh [OF assms(2,3), of e]
  have "distinct (map fst (listeners (wsCall e a k s)))"
    using assms(3) fresh by (simp add: wsCall_socket [OF assms(1)] names_ok_def)
  moreover have "\<forall>l \<in> set (listeners (wsCall e a k s)).
      \<exists>e' i. fst l = respName e' i \<and> (fst (snd l), e', i) \<in> set (calls (wsCall e a k s))"
    using assms(3) by (fastforce simp: wsCall_socket [OF assms(1)] names_ok_def)
  ultimately show ?thesis by (simp add: names_ok_def)
qed

lemma used_wsCall: "socket s \<Longrightarrow> used (wsCall e a k s) = used s @ promises s # cont_pids k"
  by (simp add: wsCall_socket used_def pend_def)

lemma promises_wsCall: "socket s \<Longrightarrow> promises (wsCall e a k s) = Suc (promises s)"
  by (simp add: wsCall_socket)

lemma pids_ok_wsCall:
  assumes "socket s" "pids_ok s" "distinct (cont_pids k)"
    "\<forall>p \<in> set (cont_pids k). p < promises s \<and> p \<notin> set (used s)"
  shows "pids_ok (wsCall e a k s)"
proof -
  have "promises s \<notin> set (used s)" "promises s \<notin> set (cont_pids k)"
    using assms by (auto simp: pids_ok_def)
  with assms show ?thesis
    by (auto simp: pids_ok_def used_wsCall promises_wsCall less_Suc_eq)
qed

lemma socket_wsCall: "socket s \<Longrightarrow> socket (wsCall e a k s)"
  by (simp add: wsCall_socket)

lemma wf_wsCall:
  assumes "well_formed s" "distinct (cont_pids k)"
    "\<forall>p \<in> set (cont_pids k). p < promises s \<and> p \<notin> set (used s)"
  shows "well_formed (wsCall e a k s)"
  using assms
  by (simp add: well_formed_def socket_wsCall ids_ok_wsCall sent_ok_wsCall names_ok_wsCall pids_ok_wsCall)

lemma used_settle: "set (used (settle p out s)) = insert p (set (used s))"
  by (auto simp: used_def)

lemma ids_ok_settle [simp]: "ids_ok (settle p out s) = ids_ok s"
  by (simp add: ids_ok_def)

lemma sent_ok_settle [simp]: "sent_ok (settle p out s) = sent_ok s"
  by (simp add: sent_ok_def)

lemma names_ok_settle [simp]: "names_ok (settle p out s) = names_ok s"
  by (simp add: names_ok_def)

lemma pids_ok_settle:
  "pids_ok s \<Longrightarrow> p < promises s \<Longrightarrow> p \<notin> set (used s) \<Longrightarrow> pids_ok (settle p out s)"
  by (auto simp: pids_ok_def used_def)

lemma wf_settle: "well_formed s \<Longrightarrow> p < promises s \<Longrightarrow> p \<notin> set (used s) \<Longrightarrow> well_formed (settle p out s)"
  by (simp add: well_formed_def pids_ok_settle)

lemma used_promises [simp]: "used (s\<lparr>promises := n\<rparr>) = used s"
  by (simp add: used_def)

lemma wf_alloc: "well_formed s \<Longrightarrow> well_formed (s\<lparr>promises := Suc (promises s)\<rparr>)"
  by (auto simp: well_formed_def ids_ok_def sent_ok_def names_ok_def pids_ok_def less_Suc_eq)

lemma wf_fresh: "well_formed s \<Longrightarrow> promises s \<notin> set (used s)"
  by (auto simp: well_formed_def pids_ok_def)

lemma wf_fail_cont:
  assumes "well_formed s" "distinct (cont_pids k)"
    "\<forall>p \<in> set (cont_pids k). p < promises s \<and> p \<notin> set (used s)"
  shows "well_formed (fail_cont k e s)"
  using assms by (cases k) (simp_all add: wf_settle used_settle)

lemma wf_batch_loop:
  assumes "well_formed s" "p < promises s" "p \<notin> set (used s)"
  shows "well_formed (batch_loop p pageName kvs s)"
proof (cases kvs)
  case Nil
  with assms show ?thesis by (simp add: batch_loop_def wf_settle)
next
  case (Cons kv rest)
  obtain key v where kv: "kv = (key, v)" by (cases kv)
  have "well_formed (wsCall ''index.set'' [JStr pageName, JStr key, v] (KBatch p (promises s) pageName rest)
             (s\<lparr>promises := Suc (promises s)\<rparr>))"
    using assms wf_fresh [OF assms(1)] by (intro wf_wsCall wf_alloc) auto
  with Cons kv show ?thesis by (simp add: batch_loop_def)
qed

lemma wf_allPages [simp]: "well_formed (s\<lparr>allPages := x\<rparr>) = well_formed s"
  by (simp add: well_formed_def ids_ok_def sent_ok_def names_ok_def pids_ok_def used_def)

lemma wf_events [simp]: "well_formed (s\<lparr>events := x\<rparr>) = well_formed s"
  by (simp add: well_formed_def ids_ok_def sent_ok_def names_ok_def pids_ok_def used_def)

lemma wf_succeed_cont:
  assumes "well_formed s" "distinct (cont_pids k)"
    "\<forall>p \<in> set (cont_pids k). p < promises s \<and> p \<notin> set (used s)"
  shows "well_formed (succeed_cont f k result s)"
proof (cases k)
  case KInit
  with assms(1) show ?thesis by (cases result) (simp_all add: Let_def)
next
  case (KBatch p q pageName rest)
  with assms show ?thesis by (simp add: wf_batch_loop wf_settle used_settle)
qed (use assms in \<open>simp_all add: wf_settle\<close>)

lemma wf_fire:
  assumes "well_formed s" "distinct (r # cont_pids k)"
    "\<forall>p \<in> set (r # cont_pids k). p < promises s \<and> p \<notin> set (used s)"
  shows "well_formed (fire f args (r, k) s)"
  using assms
  by (auto simp: fire_def Let_def used_settle intro!: wf_fail_cont wf_succeed_cont wf_settle)

lemma wf_emit [simp]: "well_formed (emit eventName args s) = well_formed s"
  by (simp add: emit_def pageCreated_handler_def pageDeleted_handler_def Let_def)

lemma distinct_pend_filter:
  "distinct (concat (map pend xs)) \<Longrightarrow> distinct (concat (map pend (filter P xs)))"
  by (induction xs) auto

lemma wf_remove: "well_formed s \<Longrightarrow> well_formed (s\<lparr>listeners := filter P (listeners s)\<rparr>)"
  by (auto simp: well_formed_def ids_ok_def sent_ok_def names_ok_def pids_ok_def used_def
      distinct_map_filter distinct_pend_filter)

lemma pend_apart:
  assumes "distinct (concat (map pend xs))" "distinct (map fst xs)" "l \<in> set xs"
  shows "distinct (pend l) \<and> (\<forall>x \<in> set xs. fst x \<noteq> fst l \<longrightarrow> set (pend l) \<inter> set (pend x) = {})"
  using assms
proof (induction xs)
  case Nil
  then show ?case by simp
next
  case (Cons x xs)
  show ?case
  proof (cases "x = l")
    case True
    with Cons.prems show ?thesis by fastforce
  next
    case False
    with Cons.prems have l: "l \<in> set xs" by simp
    from Cons.prems have "distinct (concat (map pend xs))" "distinct (map fst xs)" by simp_all
    from Cons.IH [OF this l]
    have ih: "distinct (pend l)"
      "\<forall>x \<in> set xs. fst x \<noteq> fst l \<longrightarrow> set (pend l) \<inter> set (pend x) = {}" by simp_all
    from l Cons.prems(1) have "set (pend l) \<inter> set (pend x) = {}" by fastforce
    with ih show ?thesis by simp
  qed
qed

lemma hit_cases:
  "distinct (map fst xs) \<Longrightarrow>
   filter (\<lambda>l. fst l = n) xs = [] \<or> (\<exists>l \<in> set xs. fst l = n \<and> filter (\<lambda>l. fst l = n) xs = [l])"
proof (induction xs)
  case Nil
  then show ?case by simp
next
  case (Cons x xs)
  show ?case
  proof (cases "fst x = n")
    case True
    with Cons.prems have "fst x \<notin> fst ` set xs" by simp
    then have "\<forall>y \<in> set xs. fst y \<noteq> fst x" by (metis imageI)
    with True have "filter (\<lambda>l. fst l = n) xs = []"
      by (simp add: filter_empty_conv)
    with True show ?thesis by simp
  next
    case False
    with Cons show ?thesis by auto
  qed
qed

lemma wf_deliver:
  assumes "well_formed s"
  shows "well_formed (deliver f eventName args s)"
proof -
  define s1 where "s1 = (if eventName \<in> set forwarded then emit eventName args s else s)"
  define s2 where "s2 = s1\<lparr>listeners := filter (\<lambda>l. fst l \<noteq> eventName) (listeners s1)\<rparr>"
  have wf1: "well_formed s1" using assms by (simp add: s1_def)
  then have wf2: "well_formed s2" unfolding s2_def by (rule wf_remove)
  have sock: "socket s" using assms by (simp add: well_formed_def)
  have d: "deliver f eventName args s =
      foldl (\<lambda>st l. fire f args (snd l) st) s2 (filter (\<lambda>l. fst l = eventName) (listeners s1))"
    using sock by (simp add: deliver_def s1_def s2_def Let_def)
  from wf1 have dn: "distinct (map fst (listeners s1))" by (simp add: well_formed_def names_ok_def)
  from hit_cases [OF dn, of eventName] show ?thesis
  proof
    assume "filter (\<lambda>l. fst l = eventName) (listeners s1) = []"
    with d wf2 show ?thesis by simp
  next
    assume "\<exists>l \<in> set (listeners s1). fst l = eventName \<and>
              filter (\<lambda>l. fst l = eventName) (listeners s1) = [l]"
    then obtain l where l: "l \<in> set (listeners s1)" "fst l = eventName"
      "filter (\<lambda>l. fst l = eventName) (listeners s1) = [l]" by blast
    from wf1 have du: "distinct (used s1)" and lt: "\<forall>p \<in> set (used s1). p < promises s1"
      by (simp_all add: well_formed_def pids_ok_def)
    from du have "distinct (concat (map pend (listeners s1)))" by (simp add: used_def)
    from pend_apart [OF this dn l(1)] l(2)
    have ap: "distinct (pend l)"
      "\<forall>x \<in> set (listeners s2). set (pend l) \<inter> set (pend x) = {}"
      by (simp_all add: s2_def)
    from l(1) have sub: "set (pend l) \<subseteq> set (concat (map pend (listeners s1)))" by auto
    with du have "set (pend l) \<inter> fst ` set (settled s1) = {}" by (auto simp: used_def)
    then have "set (pend l) \<inter> fst ` set (settled s2) = {}" by (simp add: s2_def)
    with ap(2) have notused: "\<forall>p \<in> set (pend l). p \<notin> set (used s2)"
      unfolding used_def by fastforce
    from sub lt have "\<forall>p \<in> set (pend l). p < promises s2" by (auto simp: used_def s2_def)
    with ap(1) notused wf2 have "well_formed (fire f args (fst (snd l), snd (snd l)) s2)"
      by (intro wf_fire) (simp_all add: pend_def)
    with d l(3) show ?thesis by simp
  qed
qed

lemma wf_async_call:
  assumes "well_formed s" "cont_pids (k (promises s)) = [promises s]"
  shows "well_formed (snd (async_call e a k s))"
proof -
  have "well_formed (wsCall e a (k (promises s)) (s\<lparr>promises := Suc (promises s)\<rparr>))"
    using assms wf_fresh [OF assms(1)] by (intro wf_wsCall wf_alloc) simp_all
  then show ?thesis by (simp add: async_call_def)
qed

lemma wf_bump: "well_formed s \<Longrightarrow> well_formed (s\<lparr>reqId := Suc (reqId s)\<rparr>)"
  by (auto simp: well_formed_def ids_ok_def sent_ok_def names_ok_def pids_ok_def used_def le_Suc_eq)

lemma wf_pushUpdates: "well_formed s \<Longrightarrow> well_formed (snd (pushUpdates toJSON pageName version us s))"
proof -
  assume w: "well_formed s"
  then have sock: "socket s" by (simp add: well_formed_def)
  have "well_formed (wsCall ''page.pushUpdates'' [JStr pageName, JNum version, JArr (map (toWire toJSON) us)]
              (KReturn (promises s)) (s\<lparr>promises := Suc (promises s)\<rparr>))"
    using w wf_fresh [OF w] by (intro wf_wsCall wf_alloc) simp_all
  with sock show ?thesis by (simp add: pushUpdates_def)
qed

lemma wf_openPage: "well_formed s \<Longrightarrow> well_formed (snd (openPage name s))"
proof -
  assume w: "well_formed s"
  have "well_formed (s\<lparr>promises := Suc (promises s), reqId := Suc (reqId s)\<rparr>)"
    using wf_bump [OF wf_alloc [OF w]] by simp
  then have "well_formed (wsCall ''page.openPage'' [JStr name] (KOpen (promises s))
              (s\<lparr>promises := Suc (promises s), reqId := Suc (reqId s)\<rparr>))"
    using wf_fresh [OF w] by (intro wf_wsCall) (simp_all add: used_def)
  then show ?thesis by (simp add: openPage_def)
qed

lemma wf_sent_plain:
  "well_formed s \<Longrightarrow> well_formed (s\<lparr>sent := sent s @ [(e, [JStr name])]\<rparr>)"
  by (simp add: well_formed_def ids_ok_def sent_ok_def names_ok_def pids_ok_def used_def
      request_ids_append request_id_def)

lemma wf_closePage: "well_formed s \<Longrightarrow> well_formed (snd (closePage name s))"
proof -
  assume w: "well_formed s"
  then have sock: "socket s" by (simp add: well_formed_def)
  have "well_formed (s\<lparr>promises := Suc (promises s), sent := sent s @ [(''page.closePage'', [JStr name])]\<rparr>)"
    using wf_sent_plain [OF wf_alloc [OF w], of "''page.closePage''" name] by simp
  then have "well_formed (settle (promises s) (Resolved (JS JUndefined))
      (s\<lparr>promises := Suc (promises s), sent := sent s @ [(''page.closePage'', [JStr name])]\<rparr>))"
    using wf_fresh [OF w] by (intro wf_settle) (simp_all add: used_def)
  with sock show ?thesis by (simp add: closePage_def)
qed

lemma wf_listPages: "well_formed s \<Longrightarrow> well_formed (snd (listPages s))"
proof -
  assume w: "well_formed s"
  have "well_formed (settle (promises s) (Resolved (JS (JArr (allPages s)))) (s\<lparr>promises := Suc (promises s)\<rparr>))"
    using w wf_fresh [OF w] by (intro wf_settle wf_alloc) simp_all
  then show ?thesis by (simp add: listPages_def)
qed

lemma wf_indexBatchSet: "well_formed s \<Longrightarrow> well_formed (snd (indexBatchSet pageName kvs s))"
proof -
  assume w: "well_formed s"
  have "well_formed (batch_loop (promises s) pageName kvs (s\<lparr>promises := Suc (promises s)\<rparr>))"
    using w wf_fresh [OF w] by (intro wf_batch_loop wf_alloc) simp_all
  then show ?thesis by (simp add: indexBatchSet_def)
qed

lemma wf_step: "well_formed s \<Longrightarrow> well_formed (step toJSON fromJSON x s)"
  by (cases x)
     (simp_all add: wf_pushUpdates wf_openPage wf_closePage wf_listPages wf_indexBatchSet wf_deliver
        wf_async_call pullUpdates_def readPage_def writePage_def deletePage_def getPageMeta_def
        indexSet_def indexGet_def indexScanPrefixForPage_def indexScanPrefixGlobal_def
        indexDeletePrefixForPage_def indexDelete_def)

lemma wf_run: "well_formed s \<Longrightarrow> well_formed (run toJSON fromJSON xs s)"
  by (induction xs arbitrary: s) (simp_all add: wf_step)

lemma wf_construct: "well_formed construct"
proof -
  let ?s0 = "\<lparr>socket = True, reqId = 0, allPages = [], listeners = [], sent = [], events = [],
        promises = 0, settled = [], calls = []\<rparr> :: 'a Space"
  have "well_formed ?s0"
    by (simp add: well_formed_def ids_ok_def sent_ok_def names_ok_def pids_ok_def used_def)
  then have "well_formed (wsCall ''page.listPages'' [] KInit ?s0)"
    by (intro wf_wsCall) simp_all
  then show ?thesis by (simp add: construct_def)
qed

lemma wf_reachable: "well_formed (run toJSON fromJSON xs construct)"
  by (rule wf_run [OF wf_construct])

lemma sorted_less_distinct: "sorted_wrt (<) (xs :: nat list) \<Longrightarrow> distinct xs"
  by (simp add: strict_sorted_iff)

subsection \<open>Continuations and calls\<close>

lemma emit_fields [simp]:
  "socket (emit n a s) = socket s"
  "reqId (emit n a s) = reqId s"
  "listeners (emit n a s) = listeners s"
  "sent (emit n a s) = sent s"
  "promises (emit n a s) = promises s"
  "settled (emit n a s) = settled s"
  "calls (emit n a s) = calls s"
  by (simp_all add: emit_def pageCreated_handler_def pageDeleted_handler_def Let_def)

lemma conts_ok_alloc: "conts_ok s \<Longrightarrow> conts_ok (s\<lparr>promises := Suc (promises s)\<rparr>)"
  by (auto simp: conts_ok_def less_Suc_eq)

lemma conts_ok_settle [simp]: "conts_ok (settle p out s) = conts_ok s"
  by (simp add: conts_ok_def)

lemma conts_ok_fail_cont [simp]: "conts_ok (fail_cont k e s) = conts_ok s"
  by (cases k) simp_all

lemma conts_ok_wsCall:
  assumes "well_formed s" "conts_ok s"
    "\<forall>p \<in> set (cont_pids k). p < promises s \<and> p \<notin> fst ` set (calls s)"
  shows "conts_ok (wsCall e a k s)"
proof -
  have sock: "socket s" using assms(1) by (simp add: well_formed_def)
  have old: "\<forall>l \<in> set (listeners s). \<forall>p \<in> set (cont_pids (snd (snd l))). p \<noteq> promises s"
  proof (intro ballI)
    fix l p assume "l \<in> set (listeners s)" "p \<in> set (cont_pids (snd (snd l)))"
    then have "p \<in> set (used s)" by (auto simp: used_def pend_def)
    with assms(1) show "p \<noteq> promises s" by (auto simp: well_formed_def pids_ok_def)
  qed
  have a: "\<forall>c \<in> set (calls (wsCall e a k s)). fst c < promises (wsCall e a k s)"
    using assms(2) by (auto simp: wsCall_socket [OF sock] conts_ok_def less_Suc_eq)
  have b: "\<forall>l \<in> set (listeners (wsCall e a k s)).
      \<forall>p \<in> set (cont_pids (snd (snd l))). p \<notin> fst ` set (calls (wsCall e a k s))"
  proof (intro ballI)
    fix l p assume l: "l \<in> set (listeners (wsCall e a k s))" and p: "p \<in> set (cont_pids (snd (snd l)))"
    from l have "l \<in> set (listeners s) \<or> l = (respName e (Suc (reqId s)), promises s, k)"
      by (auto simp: wsCall_socket [OF sock])
    then have "p \<noteq> promises s \<and> p \<notin> fst ` set (calls s)"
    proof
      assume "l \<in> set (listeners s)"
      with p old assms(2) show ?thesis by (simp add: conts_ok_def)
    next
      assume "l = (respName e (Suc (reqId s)), promises s, k)"
      with p assms(3) show ?thesis by auto
    qed
    then show "p \<notin> fst ` set (calls (wsCall e a k s))"
      by (simp add: wsCall_socket [OF sock])
  qed
  from a b show ?thesis by (simp add: conts_ok_def)
qed

lemma conts_fresh: "conts_ok s \<Longrightarrow> promises s \<notin> fst ` set (calls s)"
  by (auto simp: conts_ok_def)

lemma calls_alloc [simp]: "calls (s\<lparr>promises := n\<rparr>) = calls s"
  by simp

lemma conts_ok_batch_loop:
  assumes "well_formed s" "conts_ok s" "p < promises s" "p \<notin> fst ` set (calls s)"
  shows "conts_ok (batch_loop p pageName kvs s)"
proof (cases kvs)
  case Nil
  with assms show ?thesis by (simp add: batch_loop_def)
next
  case (Cons kv rest)
  obtain key v where kv: "kv = (key, v)" by (cases kv)
  have "conts_ok (wsCall ''index.set'' [JStr pageName, JStr key, v] (KBatch p (promises s) pageName rest)
             (s\<lparr>promises := Suc (promises s)\<rparr>))"
    using assms conts_fresh [OF assms(2)]
    by (intro conts_ok_wsCall wf_alloc conts_ok_alloc) auto
  with Cons kv show ?thesis by (simp add: batch_loop_def)
qed

lemma conts_ok_allPages [simp]: "conts_ok (s\<lparr>allPages := x\<rparr>) = conts_ok s"
  by (simp add: conts_ok_def)

lemma conts_ok_events [simp]: "conts_ok (s\<lparr>events := x\<rparr>) = conts_ok s"
  by (simp add: conts_ok_def)

lemma conts_ok_succeed_cont:
  assumes "well_formed s" "conts_ok s" "distinct (cont_pids k)"
    "\<forall>p \<in> set (cont_pids k). p < promises s \<and> p \<notin> set (used s) \<and> p \<notin> fst ` set (calls s)"
  shows "conts_ok (succeed_cont f k result s)"
proof (cases k)
  case KInit
  with assms(2) show ?thesis by (cases result) (simp_all add: Let_def)
next
  case (KBatch p q pageName rest)
  with assms have "well_formed (settle q (Resolved (JS JUndefined)) s)" by (intro wf_settle) simp_all
  with KBatch assms show ?thesis by (simp add: conts_ok_batch_loop)
qed (use assms in simp_all)

lemma conts_ok_fire:
  assumes "well_formed s" "conts_ok s" "distinct (r # cont_pids k)"
    "\<forall>p \<in> set (r # cont_pids k). p < promises s \<and> p \<notin> set (used s)"
    "\<forall>p \<in> set (cont_pids k). p \<notin> fst ` set (calls s)"
  shows "conts_ok (fire f args (r, k) s)"
proof (cases "truthy (arg args 0)")
  case True
  with assms(2) show ?thesis by (simp add: fire_def Let_def)
next
  case False
  have "conts_ok (succeed_cont f k (arg args 1) (settle r (Resolved (JS (arg args 1))) s))"
    using assms by (intro conts_ok_succeed_cont wf_settle) (auto simp: used_settle)
  with False show ?thesis by (simp add: fire_def Let_def)
qed

lemma conts_ok_emit [simp]: "conts_ok (emit n a s) = conts_ok s"
  by (simp add: conts_ok_def)

lemma conts_ok_remove: "conts_ok s \<Longrightarrow> conts_ok (s\<lparr>listeners := filter P (listeners s)\<rparr>)"
  unfolding conts_ok_def by force

lemma deliver_cases:
  assumes "well_formed s"
    and s1: "s1 = (if n \<in> set forwarded then emit n a s else s)"
    and s2: "s2 = s1\<lparr>listeners := filter (\<lambda>l. fst l \<noteq> n) (listeners s1)\<rparr>"
  shows "(n \<notin> fst ` set (listeners s) \<and> deliver f n a s = s2) \<or>
         (\<exists>r k. (n, r, k) \<in> set (listeners s) \<and> deliver f n a s = fire f a (r, k) s2 \<and>
            distinct (r # cont_pids k) \<and>
            (\<forall>p \<in> set (r # cont_pids k). p < promises s2 \<and> p \<notin> set (used s2)))"
proof -
  have wf1: "well_formed s1" using assms(1) by (simp add: s1)
  have ls: "listeners s1 = listeners s" by (simp add: s1)
  have sock: "socket s" using assms(1) by (simp add: well_formed_def)
  have d: "deliver f n a s =
      foldl (\<lambda>st l. fire f a (snd l) st) s2 (filter (\<lambda>l. fst l = n) (listeners s1))"
    using sock by (simp add: deliver_def s1 s2 Let_def)
  from wf1 have dn: "distinct (map fst (listeners s1))" by (simp add: well_formed_def names_ok_def)
  from hit_cases [OF dn, of n] show ?thesis
  proof
    assume e: "filter (\<lambda>l. fst l = n) (listeners s1) = []"
    then have "n \<notin> fst ` set (listeners s)" unfolding ls by (auto simp: filter_empty_conv)
    with d e show ?thesis by simp
  next
    assume "\<exists>l \<in> set (listeners s1). fst l = n \<and> filter (\<lambda>l. fst l = n) (listeners s1) = [l]"
    then obtain l where l: "l \<in> set (listeners s1)" "fst l = n"
      "filter (\<lambda>l. fst l = n) (listeners s1) = [l]" by blast
    obtain r k where rk: "l = (n, r, k)" using l(2) by (cases l) auto
    from wf1 have du: "distinct (used s1)" and lt: "\<forall>p \<in> set (used s1). p < promises s1"
      by (simp_all add: well_formed_def pids_ok_def)
    from du have "distinct (concat (map pend (listeners s1)))" by (simp add: used_def)
    from pend_apart [OF this dn l(1)] l(2)
    have ap: "distinct (pend l)"
      "\<forall>x \<in> set (listeners s2). set (pend l) \<inter> set (pend x) = {}"
      by (simp_all add: s2)
    from l(1) have sub: "set (pend l) \<subseteq> set (concat (map pend (listeners s1)))" by auto
    with du have "set (pend l) \<inter> fst ` set (settled s1) = {}" by (auto simp: used_def)
    then have "set (pend l) \<inter> fst ` set (settled s2) = {}" by (simp add: s2)
    with ap(2) have notused: "\<forall>p \<in> set (pend l). p \<notin> set (used s2)"
      unfolding used_def by fastforce
    from sub lt have "\<forall>p \<in> set (pend l). p < promises s2" by (auto simp: used_def s2)
    with ap(1) notused rk have
      "distinct (r # cont_pids k) \<and> (\<forall>p \<in> set (r # cont_pids k). p < promises s2 \<and> p \<notin> set (used s2))"
      by (simp add: pend_def)
    moreover from d l(3) rk have "deliver f n a s = fire f a (r, k) s2" by simp
    moreover from l(1) rk ls have "(n, r, k) \<in> set (listeners s)" by simp
    ultimately show ?thesis by blast
  qed
qed

lemma conts_ok_deliver:
  assumes "well_formed s" "conts_ok s"
  shows "conts_ok (deliver f n a s)"
proof -
  define s1 where "s1 = (if n \<in> set forwarded then emit n a s else s)"
  define s2 where "s2 = s1\<lparr>listeners := filter (\<lambda>l. fst l \<noteq> n) (listeners s1)\<rparr>"
  have wf2: "well_formed s2" using assms(1) unfolding s2_def s1_def by (intro wf_remove) simp
  have c1: "conts_ok s1" using assms(2) by (simp add: s1_def)
  then have c2: "conts_ok s2" unfolding s2_def by (rule conts_ok_remove)
  have cs: "calls s2 = calls s" by (simp add: s2_def s1_def)
  from deliver_cases [OF assms(1) s1_def s2_def, of f] show ?thesis
  proof (elim disjE conjE exE)
    assume "deliver f n a s = s2"
    with c2 show ?thesis by simp
  next
    fix r k
    assume h: "(n, r, k) \<in> set (listeners s)" "deliver f n a s = fire f a (r, k) s2"
      "distinct (r # cont_pids k)"
      "\<forall>p \<in> set (r # cont_pids k). p < promises s2 \<and> p \<notin> set (used s2)"
    from h(1) assms(2) have "\<forall>p \<in> set (cont_pids k). p \<notin> fst ` set (calls s2)"
      unfolding cs conts_ok_def by force
    with h wf2 c2 show ?thesis by (simp add: conts_ok_fire)
  qed
qed


subsection \<open>Every call keeps its listener until it is settled\<close>

lemma awaited_alloc [simp]: "awaited_but X (s\<lparr>promises := n\<rparr>) = awaited_but X s"
  by (simp add: awaited_but_def)

lemma awaited_allPages [simp]: "awaited_but X (s\<lparr>allPages := x\<rparr>) = awaited_but X s"
  by (simp add: awaited_but_def)

lemma awaited_events [simp]: "awaited_but X (s\<lparr>events := x\<rparr>) = awaited_but X s"
  by (simp add: awaited_but_def)

lemma awaited_reqId [simp]: "awaited_but X (s\<lparr>reqId := x\<rparr>) = awaited_but X s"
  by (simp add: awaited_but_def)

lemma awaited_sent [simp]: "awaited_but X (s\<lparr>sent := x\<rparr>) = awaited_but X s"
  by (simp add: awaited_but_def)

lemma awaited_emit [simp]: "awaited_but X (emit n a s) = awaited_but X s"
  by (simp add: awaited_but_def)

lemma awaited_settle: "awaited_but X s \<Longrightarrow> awaited_but (X - {p}) (settle p out s)"
  unfolding awaited_but_def by (simp add: image_Un) blast

lemma awaited_settle_same: "awaited_but X s \<Longrightarrow> awaited_but X (settle p out s)"
  unfolding awaited_but_def by (simp add: image_Un) blast

lemma awaited_fail_cont: "awaited_but X s \<Longrightarrow> awaited_but X (fail_cont k e s)"
  by (cases k) (simp_all add: awaited_settle_same)

lemma awaited_wsCall:
  assumes "socket s" "awaited_but X s"
  shows "awaited_but X (wsCall e a k s)"
  unfolding awaited_but_def
proof
  fix c assume "c \<in> set (calls (wsCall e a k s))"
  then have "c \<in> set (calls s) \<or> c = (promises s, e, Suc (reqId s))"
    by (auto simp: wsCall_socket [OF assms(1)])
  then show "fst c \<in> X \<or> fst c \<in> fst ` set (settled (wsCall e a k s)) \<or>
        (\<exists>k'. (respName (fst (snd c)) (call_id c), fst c, k') \<in> set (listeners (wsCall e a k s)))"
  proof
    assume "c \<in> set (calls s)"
    with assms(2) have "fst c \<in> X \<or> fst c \<in> fst ` set (settled s) \<or>
        (\<exists>k'. (respName (fst (snd c)) (call_id c), fst c, k') \<in> set (listeners s))"
      by (simp add: awaited_but_def)
    then show ?thesis by (auto simp: wsCall_socket [OF assms(1)])
  next
    assume "c = (promises s, e, Suc (reqId s))"
    then show ?thesis by (auto simp: wsCall_socket [OF assms(1)] call_id_def)
  qed
qed

lemma awaited_batch_loop:
  assumes "socket s" "awaited_but X s"
  shows "awaited_but X (batch_loop p pageName kvs s)"
proof (cases kvs)
  case Nil
  with assms show ?thesis by (simp add: batch_loop_def awaited_settle_same)
next
  case (Cons kv rest)
  obtain key v where kv: "kv = (key, v)" by (cases kv)
  have "awaited_but X (wsCall ''index.set'' [JStr pageName, JStr key, v]
       (KBatch p (promises s) pageName rest) (s\<lparr>promises := Suc (promises s)\<rparr>))"
    using assms by (intro awaited_wsCall) simp_all
  with Cons kv show ?thesis by (simp add: batch_loop_def)
qed

lemma awaited_succeed_cont:
  assumes "socket s" "awaited_but X s"
  shows "awaited_but X (succeed_cont f k result s)"
proof (cases k)
  case KInit
  with assms(2) show ?thesis by (cases result) (simp_all add: Let_def)
next
  case (KBatch p q pageName rest)
  with assms show ?thesis by (simp add: awaited_batch_loop awaited_settle_same)
qed (use assms in \<open>simp_all add: awaited_settle_same\<close>)

lemma awaited_fire:
  assumes "socket s" "awaited_but {r} s"
  shows "awaited_but {} (fire f args (r, k) s)"
proof -
  have "\<And>out. awaited_but {} (settle r out s)"
    using awaited_settle [OF assms(2), of r] by simp
  with assms(1) show ?thesis
    by (simp add: fire_def Let_def awaited_fail_cont awaited_succeed_cont)
qed

lemma awaited_remove:
  assumes "awaited_but {} s" "distinct (map fst (listeners s))" "(n, r, k) \<in> set (listeners s)"
  shows "awaited_but {r} (s\<lparr>listeners := filter (\<lambda>l. fst l \<noteq> n) (listeners s)\<rparr>)"
  unfolding awaited_but_def
proof
  fix c
  assume "c \<in> set (calls (s\<lparr>listeners := filter (\<lambda>l. fst l \<noteq> n) (listeners s)\<rparr>))"
  then have c: "c \<in> set (calls s)" by simp
  let ?nm = "respName (fst (snd c)) (call_id c)"
  from assms(1) c have "fst c \<in> fst ` set (settled s) \<or> (\<exists>k'. (?nm, fst c, k') \<in> set (listeners s))"
    by (simp add: awaited_but_def)
  then show "fst c \<in> {r} \<or>
      fst c \<in> fst ` set (settled (s\<lparr>listeners := filter (\<lambda>l. fst l \<noteq> n) (listeners s)\<rparr>)) \<or>
      (\<exists>k'. (?nm, fst c, k') \<in> set (listeners (s\<lparr>listeners := filter (\<lambda>l. fst l \<noteq> n) (listeners s)\<rparr>)))"
  proof
    assume "fst c \<in> fst ` set (settled s)"
    then show ?thesis by simp
  next
    assume "\<exists>k'. (?nm, fst c, k') \<in> set (listeners s)"
    then obtain k' where k': "(?nm, fst c, k') \<in> set (listeners s)" ..
    show ?thesis
    proof (cases "?nm = n")
      case True
      with k' assms(2,3) have "(fst c, k') = (r, k)"
        by (metis eq_key_imp_eq_value)
      then show ?thesis by simp
    next
      case False
      with k' show ?thesis by auto
    qed
  qed
qed

lemma awaited_deliver:
  assumes "well_formed s" "awaited_but {} s"
  shows "awaited_but {} (deliver f n a s)"
proof -
  define s1 where "s1 = (if n \<in> set forwarded then emit n a s else s)"
  define s2 where "s2 = s1\<lparr>listeners := filter (\<lambda>l. fst l \<noteq> n) (listeners s1)\<rparr>"
  have ls: "listeners s1 = listeners s" by (simp add: s1_def)
  have a1: "awaited_but {} s1" using assms(2) by (simp add: s1_def)
  have sock: "socket s2" using assms(1) by (simp add: s2_def s1_def well_formed_def)
  from assms(1) have dn: "distinct (map fst (listeners s1))" by (simp add: ls well_formed_def names_ok_def)
  from deliver_cases [OF assms(1) s1_def s2_def, of f] show ?thesis
  proof (elim disjE conjE exE)
    assume h: "n \<notin> fst ` set (listeners s)" "deliver f n a s = s2"
    then have "filter (\<lambda>l. fst l \<noteq> n) (listeners s1) = listeners s1"
      unfolding ls by (auto simp: filter_id_conv image_iff)
    with h(2) a1 show ?thesis by (simp add: s2_def awaited_but_def)
  next
    fix r k
    assume h: "(n, r, k) \<in> set (listeners s)" "deliver f n a s = fire f a (r, k) s2"
    from awaited_remove [OF a1 dn] h(1) have "awaited_but {r} s2" by (simp add: ls s2_def)
    with h(2) sock show ?thesis by (simp add: awaited_fire)
  qed
qed

subsection \<open>Every state of a session satisfies the invariant\<close>

lemma invariant_wsCall_alloc:
  assumes "invariant s"
    "cont_pids k = [promises s]"
    "t = s\<lparr>promises := Suc (promises s)\<rparr> \<or> t = s\<lparr>promises := Suc (promises s), reqId := Suc (reqId s)\<rparr>"
  shows "invariant (wsCall e a k t)"
proof -
  from assms(1) have w: "well_formed s" and c: "conts_ok s" and aw: "awaited_but {} s"
    by (simp_all add: invariant_def)
  have wa: "well_formed (s\<lparr>promises := Suc (promises s)\<rparr>)" by (rule wf_alloc [OF w])
  have wt: "well_formed t" using assms(3) wa wf_bump [OF wa] by auto
  have "conts_ok (s\<lparr>promises := Suc (promises s), reqId := Suc (reqId s)\<rparr>)"
    using conts_ok_alloc [OF c] by (simp add: conts_ok_def)
  then have ct: "conts_ok t" using assms(3) conts_ok_alloc [OF c] by (elim disjE) simp_all
  have at: "awaited_but {} t" using assms(3) aw by auto
  have f: "promises t = Suc (promises s)" "used t = used s" "calls t = calls s" "socket t"
    using assms(3) w by (auto simp: used_def well_formed_def)
  have "well_formed (wsCall e a k t)"
    using wt wf_fresh [OF w] assms(2) f by (intro wf_wsCall) simp_all
  moreover have "conts_ok (wsCall e a k t)"
    using wt ct conts_fresh [OF c] assms(2) f by (intro conts_ok_wsCall) simp_all
  moreover have "awaited_but {} (wsCall e a k t)"
    using at f by (intro awaited_wsCall) simp_all
  ultimately show ?thesis by (simp add: invariant_def)
qed

lemma invariant_async_call:
  assumes "invariant s" "cont_pids (k (promises s)) = [promises s]"
  shows "invariant (snd (async_call e a k s))"
  using invariant_wsCall_alloc [OF assms, of "s\<lparr>promises := Suc (promises s)\<rparr>"]
  by (simp add: async_call_def)

lemma invariant_pushUpdates: "invariant s \<Longrightarrow> invariant (snd (pushUpdates toJSON pageName version us s))"
proof -
  assume i: "invariant s"
  then have sock: "socket s" by (simp add: invariant_def well_formed_def)
  from invariant_wsCall_alloc [OF i, of "KReturn (promises s)" "s\<lparr>promises := Suc (promises s)\<rparr>"]
  show ?thesis using sock by (simp add: pushUpdates_def)
qed

lemma invariant_openPage: "invariant s \<Longrightarrow> invariant (snd (openPage name s))"
proof -
  assume i: "invariant s"
  from invariant_wsCall_alloc [OF i, of "KOpen (promises s)"
      "s\<lparr>promises := Suc (promises s), reqId := Suc (reqId s)\<rparr>"]
  show ?thesis by (simp add: openPage_def)
qed

lemma invariant_closePage: "invariant s \<Longrightarrow> invariant (snd (closePage name s))"
proof -
  assume i: "invariant s"
  then have sock: "socket s" by (simp add: invariant_def well_formed_def)
  from i have "conts_ok (snd (closePage name s))"
    using sock conts_ok_alloc [of s] by (simp add: invariant_def closePage_def conts_ok_def)
  moreover from i have "awaited_but {} (snd (closePage name s))"
    using sock by (simp add: invariant_def closePage_def awaited_settle_same)
  ultimately show ?thesis using i by (simp add: invariant_def wf_closePage)
qed

lemma invariant_listPages: "invariant s \<Longrightarrow> invariant (snd (listPages s))"
proof -
  assume i: "invariant s"
  from i have "conts_ok (snd (listPages s))"
    using conts_ok_alloc [of s] by (simp add: invariant_def listPages_def)
  moreover from i have "awaited_but {} (snd (listPages s))"
    by (simp add: invariant_def listPages_def awaited_settle_same)
  ultimately show ?thesis using i by (simp add: invariant_def wf_listPages)
qed

lemma invariant_indexBatchSet: "invariant s \<Longrightarrow> invariant (snd (indexBatchSet pageName kvs s))"
proof -
  assume i: "invariant s"
  then have w: "well_formed s" and c: "conts_ok s" and aw: "awaited_but {} s"
    by (simp_all add: invariant_def)
  let ?t = "s\<lparr>promises := Suc (promises s)\<rparr>"
  have "conts_ok (batch_loop (promises s) pageName kvs ?t)"
    using conts_fresh [OF c] by (intro conts_ok_batch_loop wf_alloc [OF w] conts_ok_alloc [OF c]) simp_all
  moreover  have "awaited_but {} (batch_loop (promises s) pageName kvs ?t)"
    using w aw by (intro awaited_batch_loop) (simp_all add: well_formed_def)
  ultimately have "conts_ok (snd (indexBatchSet pageName kvs s))"
    "awaited_but {} (snd (indexBatchSet pageName kvs s))" by (simp_all add: indexBatchSet_def)
  then show ?thesis using w by (simp add: invariant_def wf_indexBatchSet)
qed

lemma invariant_deliver: "invariant s \<Longrightarrow> invariant (deliver f n a s)"
  by (simp add: invariant_def wf_deliver conts_ok_deliver awaited_deliver)

lemma invariant_step: "invariant s \<Longrightarrow> invariant (step toJSON fromJSON x s)"
  by (cases x)
     (simp_all add: invariant_pushUpdates invariant_openPage invariant_closePage invariant_listPages
        invariant_indexBatchSet invariant_deliver
        invariant_async_call pullUpdates_def readPage_def writePage_def deletePage_def getPageMeta_def
        indexSet_def indexGet_def indexScanPrefixForPage_def indexScanPrefixGlobal_def
        indexDeletePrefixForPage_def indexDelete_def)

lemma invariant_run: "invariant s \<Longrightarrow> invariant (run toJSON fromJSON xs s)"
  by (induction xs arbitrary: s) (simp_all add: invariant_step)

lemma invariant_construct: "invariant construct"
proof -
  let ?s0 = "\<lparr>socket = True, reqId = 0, allPages = [], listeners = [], sent = [], events = [],
        promises = 0, settled = [], calls = []\<rparr> :: 'a Space"
  have "conts_ok ?s0" "awaited_but {} ?s0" "well_formed ?s0"
    by (simp_all add: conts_ok_def awaited_but_def well_formed_def ids_ok_def sent_ok_def names_ok_def
        pids_ok_def used_def)
  then have "conts_ok (wsCall ''page.listPages'' [] KInit ?s0)"
    "awaited_but {} (wsCall ''page.listPages'' [] KInit ?s0)"
    by (simp_all add: conts_ok_wsCall awaited_wsCall)
  then show ?thesis using wf_construct by (simp add: invariant_def construct_def)
qed

lemma invariant_reachable: "invariant (run toJSON fromJSON xs construct)"
  by (rule invariant_run [OF invariant_construct])

subsection \<open>What a delivery settles\<close>

lemma settled_fail_cont:
  "\<exists>ys. settled (fail_cont k e s) = settled s @ ys \<and> fst ` set ys \<subseteq> set (cont_pids k)"
  by (cases k) simp_all

lemma settled_batch_loop:
  "socket s \<Longrightarrow> \<exists>ys. settled (batch_loop p pageName kvs s) = settled s @ ys \<and> fst ` set ys \<subseteq> {p}"
  by (cases kvs) (auto simp: batch_loop_def wsCall_socket)

lemma settled_succeed_cont:
  assumes "socket s"
  shows "\<exists>ys. settled (succeed_cont f k result s) = settled s @ ys \<and> fst ` set ys \<subseteq> set (cont_pids k)"
proof (cases k)
  case KInit
  then show ?thesis by (cases result) (simp_all add: Let_def)
next
  case (KBatch p q pageName rest)
  from settled_batch_loop [of "settle q (Resolved (JS JUndefined)) s" p pageName rest] assms
  obtain ys where "settled (batch_loop p pageName rest (settle q (Resolved (JS JUndefined)) s)) =
      (settled s @ [(q, Resolved (JS JUndefined))]) @ ys" "fst ` set ys \<subseteq> {p}"
    by auto
  with KBatch show ?thesis by auto
qed simp_all

lemma settled_fire:
  assumes "socket s"
  shows "\<exists>ys. settled (fire f args (r, k) s) = settled s @ (r, response args) # ys \<and>
           fst ` set ys \<subseteq> set (cont_pids k)"
proof (cases "truthy (arg args 0)")
  case True
  from settled_fail_cont [of k "RemoteCallError (arg args 0)"
      "settle r (Rejected (RemoteCallError (arg args 0))) s"]
  show ?thesis using True by (auto simp: fire_def Let_def response_def)
next
  case False
  from settled_succeed_cont [of "settle r (Resolved (JS (arg args 1))) s" f k "arg args 1"] assms
  show ?thesis using False by (auto simp: fire_def Let_def response_def)
qed

lemma settled_deliver:
  assumes "well_formed s"
  shows "(n \<notin> fst ` set (listeners s) \<and> settled (deliver f n a s) = settled s) \<or>
         (\<exists>r k ys. (n, r, k) \<in> set (listeners s) \<and>
            settled (deliver f n a s) = settled s @ (r, response a) # ys \<and>
            fst ` set ys \<subseteq> set (cont_pids k))"
proof -
  define s1 where "s1 = (if n \<in> set forwarded then emit n a s else s)"
  define s2 where "s2 = s1\<lparr>listeners := filter (\<lambda>l. fst l \<noteq> n) (listeners s1)\<rparr>"
  have f: "settled s2 = settled s" "socket s2"
    using assms by (simp_all add: s2_def s1_def well_formed_def)
  from deliver_cases [OF assms s1_def s2_def, of f] show ?thesis
  proof (elim disjE conjE exE)
    assume "n \<notin> fst ` set (listeners s)" "deliver f n a s = s2"
    with f show ?thesis by simp
  next
    fix r k
    assume h: "(n, r, k) \<in> set (listeners s)" "deliver f n a s = fire f a (r, k) s2"
    from settled_fire [OF f(2), of f a r k] f(1) h show ?thesis by auto
  qed
qed

lemma call_unique:
  assumes "ids_ok s" "(r, e, i) \<in> set (calls s)" "(r', e', i) \<in> set (calls s)"
  shows "r = r' \<and> e = e'"
proof -
  from assms(1) have "distinct (map call_id (calls s))"
    by (simp add: ids_ok_def sorted_less_distinct)
  then have "inj_on call_id (set (calls s))" by (simp add: distinct_map)
  from inj_onD [OF this _ assms(2,3)] show ?thesis by (simp add: call_id_def)
qed

lemma listener_of_call:
  assumes "invariant s" "(r, e, i) \<in> set (calls s)" "(respName e i, r0, k0) \<in> set (listeners s)"
  shows "r0 = r"
proof -
  from assms(1) have n: "names_ok s" and ids: "ids_ok s"
    by (simp_all add: invariant_def well_formed_def)
  from n assms(3) obtain e' i' where "respName e i = respName e' i'" "(r0, e', i') \<in> set (calls s)"
    unfolding names_ok_def by fastforce
  then have "(r0, e, i) \<in> set (calls s)" by (simp add: respName_inj)
  from call_unique [OF ids assms(2) this] show ?thesis by simp
qed

lemma listener_pending:
  assumes "well_formed s" "(n, r, k) \<in> set (listeners s)"
  shows "r \<notin> fst ` set (settled s)"
proof -
  from assms(1) have "distinct (used s)" by (simp add: well_formed_def pids_ok_def)
  moreover from assms(2) have "r \<in> set (concat (map pend (listeners s)))"
    by (force simp: pend_def)
  ultimately show ?thesis by (auto simp: used_def)
qed

lemma deliver_response:
  assumes "invariant s" "(r, e, i) \<in> set (calls s)"
  shows "\<exists>ys. settled (deliver f (respName e i) a s) =
            settled s @ (if r \<in> fst ` set (settled s) then [] else (r, response a) # ys) \<and>
          fst ` set ys \<inter> fst ` set (calls s) = {}"
proof -
  from assms(1) have w: "well_formed s" and c: "conts_ok s" and aw: "awaited_but {} s"
    by (simp_all add: invariant_def)
  from settled_deliver [OF w, of "respName e i" f a] show ?thesis
  proof (elim disjE conjE exE)
    assume miss: "respName e i \<notin> fst ` set (listeners s)"
      and same: "settled (deliver f (respName e i) a s) = settled s"
    from aw assms(2) have "r \<in> fst ` set (settled s) \<or>
        (\<exists>k. (respName e i, r, k) \<in> set (listeners s))"
      by (force simp: awaited_but_def call_id_def)
    with miss have "r \<in> fst ` set (settled s)" by force
    with same show ?thesis by (intro exI [of _ "[]"]) simp
  next
    fix r0 k0 ys
    assume l: "(respName e i, r0, k0) \<in> set (listeners s)"
      and st: "settled (deliver f (respName e i) a s) = settled s @ (r0, response a) # ys"
      and ys: "fst ` set ys \<subseteq> set (cont_pids k0)"
    from listener_of_call [OF assms l] have r0: "r0 = r" .
    from listener_pending [OF w l] r0 have pend: "r \<notin> fst ` set (settled s)" by simp
    from c l have "\<forall>p \<in> set (cont_pids k0). p \<notin> fst ` set (calls s)"
      unfolding conts_ok_def by force
    with ys have "fst ` set ys \<inter> fst ` set (calls s) = {}" by blast
    with st r0 pend show ?thesis by (intro exI [of _ ys]) simp
  qed
qed

lemma settled_distinct: "invariant s \<Longrightarrow> distinct (map fst (settled s))"
  by (simp add: invariant_def well_formed_def pids_ok_def used_def)

subsection \<open>Forwarded events and responses\<close>

lemma respName_last: "is_digit (last (respName e i))"
proof -
  have "last (respName e i) = last (decimal i)"
    by (simp add: respName_def decimal_nonempty)
  moreover have "last (decimal i) \<in> set (decimal i)" by (simp add: decimal_nonempty)
  ultimately show ?thesis using decimal_digits [of i] by simp
qed

lemma respName_not_forwarded: "respName e i \<notin> set forwarded"
proof
  assume "respName e i \<in> set forwarded"
  then have "last (respName e i) \<in> {CHR ''t'', CHR ''d''}"
    by (auto simp: forwarded_def)
  with respName_last [of e i] show False by (auto simp: is_digit_def)
qed

lemma forwarded_not_listener:
  assumes "well_formed s" "n \<in> set forwarded"
  shows "n \<notin> fst ` set (listeners s)"
proof
  assume "n \<in> fst ` set (listeners s)"
  then obtain l where "l \<in> set (listeners s)" "fst l = n" by auto
  with assms(1) obtain e i where "n = respName e i"
    unfolding well_formed_def names_ok_def by blast
  with assms(2) respName_not_forwarded show False by simp
qed

lemma filter_none: "n \<notin> fst ` set xs \<Longrightarrow> filter (\<lambda>l. fst l \<noteq> n) xs = xs"
  by (induction xs) auto

lemma deliver_forwarded:
  assumes "well_formed s" "n \<in> set forwarded"
  shows "deliver f n a s = emit n a s"
proof -
  define s1 where "s1 = (if n \<in> set forwarded then emit n a s else s)"
  define s2 where "s2 = s1\<lparr>listeners := filter (\<lambda>l. fst l \<noteq> n) (listeners s1)\<rparr>"
  note miss = forwarded_not_listener [OF assms]
  from deliver_cases [OF assms(1) s1_def s2_def, of f] miss
  have "deliver f n a s = s2" by (metis rev_image_eqI fst_conv)
  moreover have "s2 = emit n a s"
    using miss assms(2) by (simp add: s2_def s1_def filter_none)
  ultimately show ?thesis by simp
qed

lemma deliver_hit:
  assumes "well_formed s" "(respName e i, r, k) \<in> set (listeners s)"
  shows "deliver f (respName e i) a s =
           fire f a (r, k) (s\<lparr>listeners := filter (\<lambda>l. fst l \<noteq> respName e i) (listeners s)\<rparr>)"
proof -
  define n where "n = respName e i"
  define s1 where "s1 = (if n \<in> set forwarded then emit n a s else s)"
  define s2 where "s2 = s1\<lparr>listeners := filter (\<lambda>l. fst l \<noteq> n) (listeners s1)\<rparr>"
  have s1: "s1 = s" by (simp add: s1_def n_def respName_not_forwarded)
  from assms(1) have dn: "distinct (map fst (listeners s))"
    by (simp add: well_formed_def names_ok_def)
  from assms(2) have "n \<in> fst ` set (listeners s)" unfolding n_def by force
  with deliver_cases [OF assms(1) s1_def s2_def, of f]
  obtain r0 k0 where h: "(n, r0, k0) \<in> set (listeners s)" "deliver f n a s = fire f a (r0, k0) s2"
    by blast
  from eq_key_imp_eq_value [OF dn h(1)] assms(2) have "(r0, k0) = (r, k)" by (simp add: n_def)
  with h(2) s1 show ?thesis by (simp add: s2_def n_def)
qed

lemma strict_eq_str: "strict_eq (JStr n) v \<longleftrightarrow> v = JStr n"
  by (cases v) auto

lemma allPages_created: "allPages (emit ''pageCreated'' args s) = allPages s @ [arg args 0]"
  by (simp add: emit_def pageCreated_handler_def Let_def)

lemma allPages_deleted:
  "allPages (emit ''pageDeleted'' args s) =
     filter (\<lambda>meta. \<not> strict_eq (arg args 0) (field ''name'' meta)) (allPages s)"
  by (simp add: emit_def pageDeleted_handler_def Let_def)

lemma well_formed_reachable: "well_formed (run toJSON fromJSON xs construct)"
  using invariant_reachable [of toJSON fromJSON xs] by (simp add: invariant_def)

lemma run_append: "run tj fj (xs @ ys) s = run tj fj ys (run tj fj xs s)"
  by (induction xs arbitrary: s) simp_all

lemma fresh_promise: "well_formed s \<Longrightarrow> promises s \<notin> fst ` set (settled s)"
  using wf_fresh [of s] by (simp add: used_def)

lemma events_fire_init:
  "\<not> truthy (arg args 0) \<Longrightarrow> arg args 1 = JArr pages \<Longrightarrow>
   allPages (fire f args (r, KInit) s) = pages \<and>
   events (fire f args (r, KInit) s) = events s @ [PageListUpdated pages]"
  by (simp add: fire_def Let_def)

subsection \<open>The page set\<close>

lemma allPages_fail_cont [simp]: "allPages (fail_cont k e s) = allPages s"
  by (cases k) simp_all

lemma allPages_wsCall [simp]: "allPages (wsCall e a k s) = allPages s"
  by (simp add: wsCall_def Let_def)

lemma allPages_batch_loop [simp]: "allPages (batch_loop p pageName kvs s) = allPages s"
  by (cases kvs) (auto simp: batch_loop_def)

lemma allPages_succeed_cont: "k \<noteq> KInit \<Longrightarrow> allPages (succeed_cont f k result s) = allPages s"
  by (cases k) simp_all

lemma allPages_call:
  "\<not> (\<exists>n args. x = Deliver n args) \<Longrightarrow> allPages (step toJSON fromJSON x s) = allPages s"
  by (cases x)
     (simp_all add: pushUpdates_def pullUpdates_def listPages_def openPage_def closePage_def
        readPage_def writePage_def deletePage_def getPageMeta_def indexSet_def indexBatchSet_def
        indexGet_def indexScanPrefixForPage_def indexScanPrefixGlobal_def
        indexDeletePrefixForPage_def indexDelete_def async_call_def)

lemma listeners_fail_cont [simp]: "listeners (fail_cont k e s) = listeners s"
  by (cases k) simp_all

lemma registry_step_created:
  "allPages (emit ''pageCreated'' args s) = allPages (registry_step f (Created (arg args 0)) s)"
  by (simp add: emit_def pageCreated_handler_def Let_def)

lemma registry_step_deleted:
  "allPages (emit ''pageDeleted'' args s) = allPages (registry_step f (Deleted (arg args 0)) s)"
  by (simp add: emit_def pageDeleted_handler_def Let_def)

lemma deliver_created:
  "well_formed s \<Longrightarrow>
   allPages (deliver f ''pageCreated'' args s) = allPages (registry_step f (Created (arg args 0)) s)"
  by (simp add: deliver_forwarded forwarded_def registry_step_created [of args s f])

lemma deliver_deleted:
  "well_formed s \<Longrightarrow>
   allPages (deliver f ''pageDeleted'' args s) = allPages (registry_step f (Deleted (arg args 0)) s)"
  by (simp add: deliver_forwarded forwarded_def registry_step_deleted [of args s f])

lemma registry_step_unique:
  assumes "distinct (map (field ''name'') (allPages s))" and "fresh_update u s"
  shows "distinct (map (field ''name'') (allPages (registry_step f u s)))"
proof (cases u)
  case (Listed result)
  with assms show ?thesis by (cases result) (simp_all add: Let_def)
next
  case (Created meta)
  with assms show ?thesis by (simp add: pageCreated_handler_def Let_def)
next
  case (Deleted name)
  with assms(1) show ?thesis by (simp add: pageDeleted_handler_def Let_def distinct_map_filter)
qed

lemma same_turn_order:
  "\<not> fresh_updates Some
       [Deleted (JStr ''a''),
        Listed (JArr [JObj [(''name'', JStr ''a'')], JObj [(''name'', JStr ''b'')]]),
        Created (JObj [(''name'', JStr ''a'')])] (construct :: jsval Space) \<and>
   map (field ''name'') (allPages (registry_run Some
       [Deleted (JStr ''a''),
        Listed (JArr [JObj [(''name'', JStr ''a'')], JObj [(''name'', JStr ''b'')]]),
        Created (JObj [(''name'', JStr ''a'')])] (construct :: jsval Space))) =
     [JStr ''a'', JStr ''b'', JStr ''a'']"
  by code_simp

subsection \<open>A batch in flight\<close>

lemma batch_deliver:
  assumes "well_formed s"
    and "listeners s = ls @ [(respName ''index.set'' (reqId s), r, KBatch p q pageName rest)]"
  shows "deliver f (respName ''index.set'' (reqId s)) a s =
           fire f a (r, KBatch p q pageName rest) (s\<lparr>listeners := ls\<rparr>)"
proof -
  let ?n = "respName ''index.set'' (reqId s)"
  from assms(1) have "distinct (map fst (listeners s))" by (simp add: well_formed_def names_ok_def)
  with assms(2) have "?n \<notin> fst ` set ls" by simp
  then have "filter (\<lambda>l. fst l \<noteq> ?n) ls = ls" by (rule filter_none)
  with assms(2) have f: "filter (\<lambda>l. fst l \<noteq> ?n) (listeners s) = ls" by simp
  from assms(2) have "(?n, r, KBatch p q pageName rest) \<in> set (listeners s)" by simp
  from deliver_hit [OF assms(1) this, of f a] f show ?thesis by simp
qed

lemma batch_ack:
  assumes "invariant s"
    and "listeners s = ls @ [(respName ''index.set'' (reqId s), r, KBatch p q pageName ((key, v) # rest))]"
    and "s' = deliver f (respName ''index.set'' (reqId s)) [JNull] s"
  shows "invariant s' \<and>
         listeners s' = ls @ [(respName ''index.set'' (reqId s'), Suc (promises s),
                               KBatch p (promises s) pageName rest)] \<and>
         sent s' = sent s @ batch_requests pageName (Suc (reqId s)) [(key, v)] \<and>
         reqId s' = Suc (reqId s)"
proof -
  from assms(1) have w: "well_formed s" by (simp add: invariant_def)
  then have sock: "socket s" by (simp add: well_formed_def)
  have i: "invariant s'" unfolding assms(3) by (rule invariant_deliver [OF assms(1)])
  have e: "s' = fire f [JNull] (r, KBatch p q pageName ((key, v) # rest)) (s\<lparr>listeners := ls\<rparr>)"
    unfolding assms(3) by (rule batch_deliver [OF w assms(2)])
  have "listeners s' = ls @ [(respName ''index.set'' (Suc (reqId s)), Suc (promises s),
                               KBatch p (promises s) pageName rest)]"
    "sent s' = sent s @ batch_requests pageName (Suc (reqId s)) [(key, v)]"
    "reqId s' = Suc (reqId s)"
    using sock by (simp_all add: e fire_def Let_def arg_def batch_loop_def wsCall_socket)
  with i show ?thesis by simp
qed

lemma batch_fail:
  assumes "well_formed s"
    and "listeners s = ls @ [(respName ''index.set'' (reqId s), r, KBatch p q pageName rest)]"
    and "truthy err"
    and "s' = deliver f (respName ''index.set'' (reqId s)) [err] s"
  shows "listeners s' = ls \<and> sent s' = sent s \<and>
         settled s' = settled s @ [(r, Rejected (RemoteCallError err)),
            (q, Rejected (RemoteCallError err)), (p, Rejected (RemoteCallError err))]"
proof -
  have e: "s' = fire f [err] (r, KBatch p q pageName rest) (s\<lparr>listeners := ls\<rparr>)"
    unfolding assms(4) by (rule batch_deliver [OF assms(1,2)])
  show ?thesis using assms(3) by (simp add: e fire_def Let_def arg_def)
qed

lemma batch_done:
  assumes "well_formed s"
    and "listeners s = ls @ [(respName ''index.set'' (reqId s), r, KBatch p q pageName [])]"
    and "s' = deliver f (respName ''index.set'' (reqId s)) [JNull] s"
  shows "listeners s' = ls \<and> sent s' = sent s \<and>
         settled s' = settled s @ [(r, Resolved (JS JUndefined)),
            (q, Resolved (JS JUndefined)), (p, Resolved (JS JUndefined))]"
proof -
  have e: "s' = fire f [JNull] (r, KBatch p q pageName []) (s\<lparr>listeners := ls\<rparr>)"
    unfolding assms(3) by (rule batch_deliver [OF assms(1,2)])
  show ?thesis by (simp add: e fire_def Let_def arg_def batch_loop_def)
qed

lemma batch_start:
  assumes "invariant s" and "s' = snd (indexBatchSet pageName ((key, v) # rest) s)"
  shows "invariant s' \<and>
         listeners s' = listeners s @ [(respName ''index.set'' (reqId s'), Suc (Suc (promises s)),
                               KBatch (promises s) (Suc (promises s)) pageName rest)] \<and>
         sent s' = sent s @ batch_requests pageName (Suc (reqId s)) [(key, v)] \<and>
         reqId s' = Suc (reqId s) \<and>
         fst (indexBatchSet pageName ((key, v) # rest) s) = promises s"
proof -
  from assms(1) have "socket s" by (simp add: invariant_def well_formed_def)
  then have "listeners s' = listeners s @ [(respName ''index.set'' (Suc (reqId s)), Suc (Suc (promises s)),
                               KBatch (promises s) (Suc (promises s)) pageName rest)]"
    "sent s' = sent s @ batch_requests pageName (Suc (reqId s)) [(key, v)]"
    "reqId s' = Suc (reqId s)"
    "fst (indexBatchSet pageName ((key, v) # rest) s) = promises s"
    by (simp_all add: assms(2) indexBatchSet_def batch_loop_def wsCall_socket)
  moreover have "invariant s'" unfolding assms(2) by (rule invariant_indexBatchSet [OF assms(1)])
  ultimately show ?thesis by simp
qed

lemma batch_requests_append:
  "batch_requests pageName i (xs @ ys) =
     batch_requests pageName i xs @ batch_requests pageName (i + length xs) ys"
  by (induction xs arbitrary: i) auto

lemma batch_acks:
  assumes "invariant s"
    and "listeners s = ls @ [(respName ''index.set'' (reqId s), r, KBatch p q pageName rest)]"
    and "n \<le> length rest"
  shows "\<exists>r' q'. invariant (acknowledge f n s) \<and>
           listeners (acknowledge f n s) =
             ls @ [(respName ''index.set'' (reqId (acknowledge f n s)), r',
                    KBatch p q' pageName (drop n rest))] \<and>
           sent (acknowledge f n s) = sent s @ batch_requests pageName (Suc (reqId s)) (take n rest)"
  using assms
proof (induction n arbitrary: s r q rest)
  case 0
  then show ?case by auto
next
  case (Suc n)
  then obtain key v rest' where rest: "rest = (key, v) # rest'" by (cases rest) auto
  define s' where "s' = deliver f (respName ''index.set'' (reqId s)) [JNull] s"
  from batch_ack [OF Suc.prems(1) Suc.prems(2) [unfolded rest] s'_def]
  have i: "invariant s'"
    and l: "listeners s' = ls @ [(respName ''index.set'' (reqId s'), Suc (promises s),
                               KBatch p (promises s) pageName rest')]"
    and st: "sent s' = sent s @ batch_requests pageName (Suc (reqId s)) [(key, v)]"
    and rq: "reqId s' = Suc (reqId s)"
    by simp_all
  from Suc.prems(3) rest have "n \<le> length rest'" by simp
  from Suc.IH [OF i l this] obtain r' q' where
    "invariant (acknowledge f n s')"
    "listeners (acknowledge f n s') =
       ls @ [(respName ''index.set'' (reqId (acknowledge f n s')), r',
              KBatch p q' pageName (drop n rest'))]"
    "sent (acknowledge f n s') = sent s' @ batch_requests pageName (Suc (reqId s')) (take n rest')"
    by blast
  then show ?case by (auto simp: s'_def [symmetric] rest st rq)
qed

lemma acknowledge_last:
  "acknowledge f (Suc n) s =
     deliver f (respName ''index.set'' (reqId (acknowledge f n s))) [JNull] (acknowledge f n s)"
  by (induction n arbitrary: s) simp_all

section \<open>The index requests\<close>

text \<open>
  C5: \<^verbatim>\<open>indexDeletePrefixForPage(pageName, keyPrefix)\<close> emits one
  \<^verbatim>\<open>index.deletePrefixForPage\<close> request. Its arguments after the request identifier are the
  key prefix alone: the page name is not sent.
\<close>

theorem indexDeletePrefixForPage_request:
  "socket s \<Longrightarrow>
   sent (snd (indexDeletePrefixForPage pageName keyPrefix s)) =
     sent s @ [(''index.deletePrefixForPage'', [JNum (int (reqId s) + 1), JStr keyPrefix])]"
  by (simp add: indexDeletePrefixForPage_def async_call_def wsCall_socket)

theorem indexDeletePrefixForPage_request_witness:
  "socket (construct :: jsval Space) \<and>
   sent (snd (indexDeletePrefixForPage ''page1'' ''task:'' (construct :: jsval Space))) =
     [(''page.listPages'', [JNum 1]), (''index.deletePrefixForPage'', [JNum 2, JStr ''task:''])]"
proof -
  have sock: "socket (construct :: jsval Space)" by code_simp
  have init: "sent (construct :: jsval Space) = [(''page.listPages'', [JNum 1])]"
    "reqId (construct :: jsval Space) = 1" by code_simp+
  show ?thesis
    using indexDeletePrefixForPage_request [OF sock, of "''page1''" "''task:''"] sock init
    by simp
qed

section \<open>Request identifiers\<close>

text \<open>
  C3: in every run of a session, from the constructor on and whatever methods are called
  and events arrive, the identifiers of the emitted requests are strictly increasing, all
  above zero, and none is used twice. (\<^verbatim>\<open>openPage\<close> increments the counter once more
  before its call, so it skips a number.)
\<close>

theorem request_ids_increasing:
  "sorted_wrt (<) (request_ids (sent (run toJSON fromJSON xs construct))) \<and>
   distinct (request_ids (sent (run toJSON fromJSON xs construct))) \<and>
   (\<forall>i \<in> set (request_ids (sent (run toJSON fromJSON xs construct))). 0 < i)"
proof -
  let ?s = "run toJSON fromJSON xs construct"
  have "well_formed ?s" by (rule wf_reachable)
  then have ids: "ids_ok ?s" and sent: "sent_ok ?s" by (simp_all add: well_formed_def)
  from ids sent have s: "sorted_wrt (<) (request_ids (sent ?s))"
    by (simp add: ids_ok_def sent_ok_def)
  from ids sent have "\<forall>i \<in> set (request_ids (sent ?s)). 0 < i"
    by (auto simp: ids_ok_def sent_ok_def)
  with s sorted_less_distinct [OF s] show ?thesis by simp
qed

theorem request_ids_increasing_witness:
  "request_ids (sent (run (\<lambda>c. c) Some
      [OpenPage ''a'', ClosePage ''a'', IndexGet ''a'' ''k'',
       Deliver ''index.getResp4'' [JNull, JStr ''v''], ReadPage ''b'']
      construct)) = [1, 3, 4, 5] \<and>
   sorted_wrt (<) [1, 3, 4, 5 :: nat] \<and> distinct [1, 3, 4, 5 :: nat]"
proof -
  let ?xs = "[OpenPage ''a'', ClosePage ''a'', IndexGet ''a'' ''k'',
       Deliver ''index.getResp4'' [JNull, JStr ''v''], ReadPage ''b''] :: jsval op list"
  have e: "request_ids (sent (run (\<lambda>c. c) Some ?xs construct)) = [1, 3, 4, 5]"
    by code_simp
  from request_ids_increasing [of "\<lambda>c. c" Some ?xs] e show ?thesis by simp
qed

section \<open>The request correlator\<close>

text \<open>
  C1: take any run of a session (methods called and events arriving in any order) and any
  call that was made in it, with the promise \<open>r\<close> it created, its event name \<open>e\<close> and the
  request identifier \<open>i\<close> it allocated. When the response event \<^verbatim>\<open><e>Resp<i>\<close> arrives,
  the promise \<open>r\<close> is settled; the promise of every other call is settled afterwards
  exactly if it was before; and no promise has been settled twice.
\<close>

theorem correlator_order_independent:
  assumes "s = run toJSON fromJSON xs construct" and "(r, e, i) \<in> set (calls s)"
  shows "r \<in> fst ` set (settled (deliver fromJSON (respName e i) args s)) \<and>
         (\<forall>c \<in> set (calls s). fst c \<noteq> r \<longrightarrow>
            (fst c \<in> fst ` set (settled (deliver fromJSON (respName e i) args s)) \<longleftrightarrow>
             fst c \<in> fst ` set (settled s))) \<and>
         distinct (map fst (settled (deliver fromJSON (respName e i) args s)))"
proof -
  let ?s' = "deliver fromJSON (respName e i) args s"
  have inv: "invariant s" unfolding assms(1) by (rule invariant_reachable)
  from deliver_response [OF inv assms(2), of fromJSON args]
  obtain ys where st: "settled ?s' =
      settled s @ (if r \<in> fst ` set (settled s) then [] else (r, response args) # ys)"
    and ys: "fst ` set ys \<inter> fst ` set (calls s) = {}" by blast
  have a: "r \<in> fst ` set (settled ?s')"
  proof (cases "r \<in> fst ` set (settled s)")
    case True
    with st show ?thesis by simp
  next
    case False
    with st show ?thesis by simp
  qed
  have b: "\<forall>c \<in> set (calls s). fst c \<noteq> r \<longrightarrow>
      (fst c \<in> fst ` set (settled ?s') \<longleftrightarrow> fst c \<in> fst ` set (settled s))"
  proof (intro ballI impI)
    fix c assume c: "c \<in> set (calls s)" "fst c \<noteq> r"
    then have n: "fst c \<notin> fst ` set ys" using ys by blast
    show "fst c \<in> fst ` set (settled ?s') \<longleftrightarrow> fst c \<in> fst ` set (settled s)"
    proof (cases "r \<in> fst ` set (settled s)")
      case True
      with st show ?thesis by simp
    next
      case False
      with st have "fst ` set (settled ?s') = fst ` set (settled s) \<union> insert r (fst ` set ys)"
        by (simp add: image_Un)
      with n c(2) show ?thesis by simp
    qed
  qed
  have "invariant ?s'" by (rule invariant_deliver [OF inv])
  then have "distinct (map fst (settled ?s'))" by (rule settled_distinct)
  with a b show ?thesis by blast
qed

theorem correlator_order_independent_witness:
  "(4, ''page.readPage'', 3) \<in> set (calls (run (\<lambda>c. c) Some [ReadPage ''a'', ReadPage ''b''] construct)) \<and>
   (2, ''page.readPage'', 2) \<in> set (calls (run (\<lambda>c. c) Some [ReadPage ''a'', ReadPage ''b''] construct)) \<and>
   4 \<in> fst ` set (settled (deliver Some (respName ''page.readPage'' 3) [JNull, JStr ''text of b'']
          (run (\<lambda>c. c) Some [ReadPage ''a'', ReadPage ''b''] construct))) \<and>
   2 \<notin> fst ` set (settled (deliver Some (respName ''page.readPage'' 3) [JNull, JStr ''text of b'']
          (run (\<lambda>c. c) Some [ReadPage ''a'', ReadPage ''b''] construct)))"
proof -
  define s :: "jsval Space" where "s = run (\<lambda>c. c) Some [ReadPage ''a'', ReadPage ''b''] construct"
  define s' where "s' = deliver Some (respName ''page.readPage'' 3) [JNull, JStr ''text of b''] s"
  have c4: "(4, ''page.readPage'', 3) \<in> set (calls s)" unfolding s_def by code_simp
  have c2: "(2, ''page.readPage'', 2) \<in> set (calls s)" unfolding s_def by code_simp
  have s2: "2 \<notin> fst ` set (settled s)" unfolding s_def by code_simp
  note T = correlator_order_independent [OF s_def c4, where args = "[JNull, JStr ''text of b'']",
      folded s'_def]
  from T have t1: "4 \<in> fst ` set (settled s')" by (rule conjunct1)
  from T have "\<forall>c \<in> set (calls s). fst c \<noteq> 4 \<longrightarrow>
      (fst c \<in> fst ` set (settled s') \<longleftrightarrow> fst c \<in> fst ` set (settled s))"
    by (rule conjunct1 [OF conjunct2])
  from bspec [OF this c2] s2 have t2: "2 \<notin> fst ` set (settled s')" by simp
  have "(4, ''page.readPage'', 3) \<in> set (calls s) \<and> (2, ''page.readPage'', 2) \<in> set (calls s) \<and>
      4 \<in> fst ` set (settled s') \<and> 2 \<notin> fst ` set (settled s')"
    by (intro conjI c4 c2 t1 t2)
  then show ?thesis unfolding s'_def s_def .
qed

text \<open>
  C2, as amended: when the response of a call that is still pending arrives, its promise
  gets exactly one outcome. If the first response field is truthy, the promise is rejected
  with that field; if it is falsy (null, undefined or absent, but also \<^verbatim>\<open>false\<close>, \<^verbatim>\<open>0\<close> and
  the empty string), the promise is resolved with the second field.
\<close>

theorem response_settles_call:
  assumes "s = run toJSON fromJSON xs construct" and "(r, e, i) \<in> set (calls s)"
    and "r \<notin> fst ` set (settled s)"
  shows "\<forall>out. (r, out) \<in> set (settled (deliver fromJSON (respName e i) args s)) \<longleftrightarrow>
           out = (if truthy (arg args 0) then Rejected (RemoteCallError (arg args 0))
                  else Resolved (JS (arg args 1)))"
proof -
  let ?s' = "deliver fromJSON (respName e i) args s"
  have inv: "invariant s" unfolding assms(1) by (rule invariant_reachable)
  from deliver_response [OF inv assms(2), of fromJSON args] assms(3)
  obtain ys where st: "settled ?s' = settled s @ (r, response args) # ys" by auto
  then have m: "(r, response args) \<in> set (settled ?s')" by simp
  have "invariant ?s'" by (rule invariant_deliver [OF inv])
  then have d: "distinct (map fst (settled ?s'))" by (rule settled_distinct)
  have u: "\<And>out. (r, out) \<in> set (settled ?s') \<Longrightarrow> out = response args"
    using eq_key_imp_eq_value [OF d _ m] by simp
  show ?thesis
  proof (intro allI iffI)
    fix out assume "(r, out) \<in> set (settled ?s')"
    from u [OF this] show "out = (if truthy (arg args 0) then Rejected (RemoteCallError (arg args 0))
                  else Resolved (JS (arg args 1)))" by (simp add: response_def)
  next
    fix out :: "'a outcome"
    assume "out = (if truthy (arg args 0) then Rejected (RemoteCallError (arg args 0))
                  else Resolved (JS (arg args 1)))"
    with m show "(r, out) \<in> set (settled ?s')" by (simp add: response_def)
  qed
qed

theorem response_settles_call_witness:
  "(2, ''page.readPage'', 2) \<in> set (calls (run (\<lambda>c. c) Some [ReadPage ''a''] construct)) \<and>
   2 \<notin> fst ` set (settled (run (\<lambda>c. c) Some [ReadPage ''a''] construct)) \<and>
   (2, Rejected (RemoteCallError (JStr ''no such page''))) \<in>
     set (settled (deliver Some (respName ''page.readPage'' 2) [JStr ''no such page'']
            (run (\<lambda>c. c) Some [ReadPage ''a''] construct))) \<and>
   (2, Resolved (JS (JStr ''text''))) \<in>
     set (settled (deliver Some (respName ''page.readPage'' 2) [JNull, JStr ''text'']
            (run (\<lambda>c. c) Some [ReadPage ''a''] construct)))"
proof -
  define s :: "jsval Space" where "s = run (\<lambda>c. c) Some [ReadPage ''a''] construct"
  have c: "(2, ''page.readPage'', 2) \<in> set (calls s)" unfolding s_def by code_simp
  have p: "2 \<notin> fst ` set (settled s)" unfolding s_def by code_simp
  have a: "(2, Rejected (RemoteCallError (JStr ''no such page''))) \<in>
     set (settled (deliver Some (respName ''page.readPage'' 2) [JStr ''no such page''] s))"
    using response_settles_call [OF s_def c p, where args = "[JStr ''no such page'']"]
    by (simp add: arg_def)
  have b: "(2, Resolved (JS (JStr ''text''))) \<in>
     set (settled (deliver Some (respName ''page.readPage'' 2) [JNull, JStr ''text''] s))"
    using response_settles_call [OF s_def c p, where args = "[JNull, JStr ''text'']"]
    by (simp add: arg_def)
  have "(2, ''page.readPage'', 2) \<in> set (calls s) \<and> 2 \<notin> fst ` set (settled s) \<and>
    (2, Rejected (RemoteCallError (JStr ''no such page''))) \<in>
     set (settled (deliver Some (respName ''page.readPage'' 2) [JStr ''no such page''] s)) \<and>
    (2, Resolved (JS (JStr ''text''))) \<in>
     set (settled (deliver Some (respName ''page.readPage'' 2) [JNull, JStr ''text''] s))"
    by (intro conjI c p a b)
  then show ?thesis unfolding s_def .
qed

text \<open>
  C2 as stated fails: the empty string is a non-null error indicator, and the promise of
  the call (promise 2) and of \<^verbatim>\<open>readPage\<close> (promise 1) are resolved with the second field.
\<close>

theorem falsy_error_indicator_resolves:
  "JStr [] \<noteq> JNull \<and> JStr [] \<noteq> JUndefined \<and>
   settled (deliver Some (respName ''page.readPage'' 2) [JStr [], JStr ''x'']
     (run (\<lambda>c. c) Some [ReadPage ''a''] construct)) =
   [(2, Resolved (JS (JStr ''x''))), (1, Resolved (JS (JStr ''x'')))]"
  by code_simp

section \<open>The page registry\<close>

text \<open>
  C7: in any run of a session, when a \<^verbatim>\<open>pageCreated(meta)\<close> event is followed by a
  \<^verbatim>\<open>pageDeleted(name)\<close> event with the name of \<open>meta\<close>, \<^verbatim>\<open>listPages()\<close> resolves with the
  current page set and no entry of it has that name.
\<close>

theorem created_then_deleted_absent:
  assumes "s = run toJSON fromJSON xs construct"
    and "field ''name'' meta = JStr name"
    and "s1 = deliver fromJSON ''pageCreated'' [meta] s"
    and "s2 = deliver fromJSON ''pageDeleted'' [JStr name] s1"
  shows "settled (snd (listPages s2)) =
           settled s2 @ [(fst (listPages s2), Resolved (JS (JArr (allPages s2))))] \<and>
         (\<forall>m \<in> set (allPages s2). field ''name'' m \<noteq> JStr name)"
proof -
  have w: "well_formed s" unfolding assms(1) by (rule well_formed_reachable)
  have s1: "s1 = emit ''pageCreated'' [meta] s"
    unfolding assms(3) by (rule deliver_forwarded [OF w]) (simp add: forwarded_def)
  then have w1: "well_formed s1" using w by simp
  have s2: "s2 = emit ''pageDeleted'' [JStr name] s1"
    unfolding assms(4) by (rule deliver_forwarded [OF w1]) (simp add: forwarded_def)
  have "allPages s2 = filter (\<lambda>m. field ''name'' m \<noteq> JStr name) (allPages s1)"
    by (simp add: s2 allPages_deleted arg_def strict_eq_str)
  then have "\<forall>m \<in> set (allPages s2). field ''name'' m \<noteq> JStr name" by simp
  then show ?thesis by (simp add: listPages_def)
qed

theorem created_then_deleted_absent_witness:
  "field ''name'' (JObj [(''name'', JStr ''a'')]) = JStr ''a'' \<and>
   allPages (deliver Some ''pageCreated'' [JObj [(''name'', JStr ''a'')]]
      (run (\<lambda>c. c) Some [] construct)) = [JObj [(''name'', JStr ''a'')]] \<and>
   JObj [(''name'', JStr ''a'')] \<notin> set (allPages (deliver Some ''pageDeleted'' [JStr ''a'']
      (deliver Some ''pageCreated'' [JObj [(''name'', JStr ''a'')]]
        (run (\<lambda>c. c) Some [] construct))))"
proof -
  define meta where "meta = JObj [(''name'', JStr ''a'')]"
  define s :: "jsval Space" where "s = run (\<lambda>c. c) Some [] construct"
  define s1 where "s1 = deliver Some ''pageCreated'' [meta] s"
  define s2 where "s2 = deliver Some ''pageDeleted'' [JStr ''a''] s1"
  have n: "field ''name'' meta = JStr ''a''" by (simp add: meta_def)
  have a: "allPages s1 = [meta]" unfolding s1_def s_def meta_def by code_simp
  from created_then_deleted_absent [OF s_def n s1_def s2_def]
  have "\<forall>m \<in> set (allPages s2). field ''name'' m \<noteq> JStr ''a''" by (rule conjunct2)
  with n have "meta \<notin> set (allPages s2)" by blast
  with n a have "field ''name'' meta = JStr ''a'' \<and> allPages s1 = [meta] \<and> meta \<notin> set (allPages s2)"
    by simp
  then show ?thesis unfolding s2_def s1_def s_def meta_def .
qed

section \<open>Pushing updates\<close>

text \<open>
  C6: without a transport \<^verbatim>\<open>pushUpdates\<close> resolves with \<^verbatim>\<open>false\<close>, emits nothing and registers
  no listener. With a transport it emits one \<^verbatim>\<open>page.pushUpdates\<close> request whose arguments
  after the identifier are the page name, the version and the serialised updates, and
  registers one listener; in a session, when the response arrives with a falsy error
  indicator, the promise of \<^verbatim>\<open>pushUpdates\<close> is resolved with the server's result and nothing else.
\<close>

theorem pushUpdates_guarded:
  "(\<not> socket s \<longrightarrow>
      sent (snd (pushUpdates toJSON pageName version us s)) = sent s \<and>
      listeners (snd (pushUpdates toJSON pageName version us s)) = listeners s \<and>
      settled (snd (pushUpdates toJSON pageName version us s)) =
        settled s @ [(fst (pushUpdates toJSON pageName version us s), Resolved (JS (JBool False)))]) \<and>
   (socket s \<longrightarrow>
      sent (snd (pushUpdates toJSON pageName version us s)) =
        sent s @ [(''page.pushUpdates'',
                   [JNum (int (reqId s) + 1), JStr pageName, JNum version,
                    JArr (map (toWire toJSON) us)])] \<and>
      listeners (snd (pushUpdates toJSON pageName version us s)) =
        listeners s @ [(respName ''page.pushUpdates'' (reqId s + 1),
                        fst (pushUpdates toJSON pageName version us s) + 1,
                        KReturn (fst (pushUpdates toJSON pageName version us s)))]) \<and>
   (s = run toJSON fromJSON xs construct \<longrightarrow> \<not> truthy (arg args 0) \<longrightarrow>
      (\<forall>out. (fst (pushUpdates toJSON pageName version us s), out) \<in>
               set (settled (deliver fromJSON (respName ''page.pushUpdates'' (reqId s + 1)) args
                      (snd (pushUpdates toJSON pageName version us s)))) \<longleftrightarrow>
             out = Resolved (JS (arg args 1))))"
proof (intro conjI impI)
  assume "\<not> socket s"
  then show "sent (snd (pushUpdates toJSON pageName version us s)) = sent s"
    "listeners (snd (pushUpdates toJSON pageName version us s)) = listeners s"
    "settled (snd (pushUpdates toJSON pageName version us s)) =
        settled s @ [(fst (pushUpdates toJSON pageName version us s), Resolved (JS (JBool False)))]"
    by (simp_all add: pushUpdates_def)
next
  assume "socket s"
  then show "sent (snd (pushUpdates toJSON pageName version us s)) =
        sent s @ [(''page.pushUpdates'',
                   [JNum (int (reqId s) + 1), JStr pageName, JNum version,
                    JArr (map (toWire toJSON) us)])]"
    "listeners (snd (pushUpdates toJSON pageName version us s)) =
        listeners s @ [(respName ''page.pushUpdates'' (reqId s + 1),
                        fst (pushUpdates toJSON pageName version us s) + 1,
                        KReturn (fst (pushUpdates toJSON pageName version us s)))]"
    by (simp_all add: pushUpdates_def wsCall_socket)
next
  assume reach: "s = run toJSON fromJSON xs construct" and ok: "\<not> truthy (arg args 0)"
  let ?p = "fst (pushUpdates toJSON pageName version us s)"
  let ?s' = "snd (pushUpdates toJSON pageName version us s)"
  let ?n = "respName ''page.pushUpdates'' (reqId s + 1)"
  have w: "well_formed s" unfolding reach by (rule well_formed_reachable)
  then have sock: "socket s" by (simp add: well_formed_def)
  have w': "well_formed ?s'" by (rule wf_pushUpdates [OF w])
  have p: "?p = promises s" by (simp add: pushUpdates_def split: if_splits)
  have l: "(?n, Suc ?p, KReturn ?p) \<in> set (listeners ?s')"
    using sock by (simp add: pushUpdates_def wsCall_socket)
  have st: "settled ?s' = settled s"
    using sock by (simp add: pushUpdates_def wsCall_socket)
  have "settled (deliver fromJSON ?n args ?s') =
      settled (fire fromJSON args (Suc ?p, KReturn ?p)
        (?s'\<lparr>listeners := filter (\<lambda>l. fst l \<noteq> ?n) (listeners ?s')\<rparr>))"
    by (simp only: deliver_hit [OF w' l])
  also have "\<dots> = settled s @ [(Suc ?p, Resolved (JS (arg args 1))), (?p, Resolved (JS (arg args 1)))]"
    using ok st by (simp add: fire_def Let_def)
  finally have "settled (deliver fromJSON ?n args ?s') =
      settled s @ [(Suc ?p, Resolved (JS (arg args 1))), (?p, Resolved (JS (arg args 1)))]" .
  moreover have "?p \<notin> fst ` set (settled s)" using fresh_promise [OF w] p by simp
  ultimately show "\<forall>out. (?p, out) \<in> set (settled (deliver fromJSON ?n args ?s')) \<longleftrightarrow>
             out = Resolved (JS (arg args 1))"
    by force
qed

theorem pushUpdates_guarded_witness:
  "\<not> socket ((construct :: jsval Space)\<lparr>socket := False\<rparr>) \<and>
   sent (snd (pushUpdates (\<lambda>c. c) ''doc1'' 5 [] ((construct :: jsval Space)\<lparr>socket := False\<rparr>))) =
     [(''page.listPages'', [JNum 1])] \<and>
   (1, Resolved (JS (JBool False))) \<in>
     set (settled (snd (pushUpdates (\<lambda>c. c) ''doc1'' 5 [] ((construct :: jsval Space)\<lparr>socket := False\<rparr>)))) \<and>
   socket (run (\<lambda>c. c) Some [] construct) \<and>
   sent (snd (pushUpdates (\<lambda>c. c) ''doc1'' 5
      [\<lparr>clientID = ''c1'', changes = JArr [JNum 3], effects = None\<rparr>]
      (run (\<lambda>c. c) Some [] construct))) =
     [(''page.listPages'', [JNum 1]),
      (''page.pushUpdates'', [JNum 2, JStr ''doc1'', JNum 5,
         JArr [JObj [(''clientID'', JStr ''c1''), (''changes'', JArr [JNum 3]),
                     (''cursors'', JUndefined)]]])] \<and>
   (1, Resolved (JS (JBool True))) \<in>
     set (settled (deliver Some (respName ''page.pushUpdates'' 2) [JNull, JBool True]
       (snd (pushUpdates (\<lambda>c. c) ''doc1'' 5
          [\<lparr>clientID = ''c1'', changes = JArr [JNum 3], effects = None\<rparr>]
          (run (\<lambda>c. c) Some [] construct)))))"
proof -
  define off :: "jsval Space" where "off = construct\<lparr>socket := False\<rparr>"
  define s :: "jsval Space" where "s = run (\<lambda>c. c) Some [] construct"
  define us :: "(string, jsval) Update list"
    where "us = [\<lparr>clientID = ''c1'', changes = JArr [JNum 3], effects = None\<rparr>]"
  have o1: "\<not> socket off" by (simp add: off_def)
  have o2: "sent off = [(''page.listPages'', [JNum 1])]" "settled off = []"
    unfolding off_def by code_simp+
  have o3: "fst (pushUpdates (\<lambda>c. c) ''doc1'' 5 [] off) = 1" unfolding off_def by code_simp
  note A = pushUpdates_guarded [of off "\<lambda>c. c" "''doc1''" 5 "[]"]
  from A o1 o2 have a1: "sent (snd (pushUpdates (\<lambda>c. c) ''doc1'' 5 [] off)) = [(''page.listPages'', [JNum 1])]"
    by simp
  from A o1 o2 o3 have a2: "(1, Resolved (JS (JBool False))) \<in>
     set (settled (snd (pushUpdates (\<lambda>c. c) ''doc1'' 5 [] off)))"
    by simp
  have r1: "socket s" unfolding s_def by code_simp
  have r2: "sent s = [(''page.listPages'', [JNum 1])]" "reqId s = 1" unfolding s_def by code_simp+
  have r3: "fst (pushUpdates (\<lambda>c. c) ''doc1'' 5 us s) = 1" unfolding s_def us_def by code_simp
  note B = pushUpdates_guarded [of s "\<lambda>c. c" "''doc1''" 5 us Some "[]" "[JNull, JBool True]"]
  from B r1 r2 have b1: "sent (snd (pushUpdates (\<lambda>c. c) ''doc1'' 5 us s)) =
     [(''page.listPages'', [JNum 1]),
      (''page.pushUpdates'', [JNum 2, JStr ''doc1'', JNum 5,
         JArr [JObj [(''clientID'', JStr ''c1''), (''changes'', JArr [JNum 3]),
                     (''cursors'', JUndefined)]]])]"
    by (simp add: us_def toWire_def)
  have nt: "\<not> truthy (arg [JNull, JBool True] 0)" by (simp add: arg_def)
  note B3 = B [THEN conjunct2, THEN conjunct2, THEN mp, OF s_def, THEN mp, OF nt]
  from B3 r2 r3 have b2: "(1, Resolved (JS (JBool True))) \<in>
     set (settled (deliver Some (respName ''page.pushUpdates'' 2) [JNull, JBool True]
       (snd (pushUpdates (\<lambda>c. c) ''doc1'' 5 us s))))"
    by (simp add: arg_def numeral_2_eq_2)
  have "\<not> socket off \<and>
    sent (snd (pushUpdates (\<lambda>c. c) ''doc1'' 5 [] off)) = [(''page.listPages'', [JNum 1])] \<and>
    (1, Resolved (JS (JBool False))) \<in> set (settled (snd (pushUpdates (\<lambda>c. c) ''doc1'' 5 [] off))) \<and>
    socket s \<and>
    sent (snd (pushUpdates (\<lambda>c. c) ''doc1'' 5 us s)) =
     [(''page.listPages'', [JNum 1]),
      (''page.pushUpdates'', [JNum 2, JStr ''doc1'', JNum 5,
         JArr [JObj [(''clientID'', JStr ''c1''), (''changes'', JArr [JNum 3]),
                     (''cursors'', JUndefined)]]])] \<and>
    (1, Resolved (JS (JBool True))) \<in>
     set (settled (deliver Some (respName ''page.pushUpdates'' 2) [JNull, JBool True]
       (snd (pushUpdates (\<lambda>c. c) ''doc1'' 5 us s))))"
    by (intro conjI o1 a1 a2 r1 b1 b2)
  then show ?thesis unfolding off_def s_def us_def .
qed

section \<open>The initial fetch\<close>

text \<open>
  C10: the constructor emits one request, \<^verbatim>\<open>page.listPages\<close> with identifier 1. In any run
  in which its listener is still registered (the response has not arrived yet), the response
  with a null error indicator and a page list replaces the page set by that list, whatever
  it held, and one \<^verbatim>\<open>pageListUpdated\<close> event with the new set is emitted.
\<close>

theorem initial_fetch_replaces_page_set:
  assumes "s = run toJSON fromJSON xs construct"
    and "(respName ''page.listPages'' 1, 0, KInit) \<in> set (listeners s)"
  shows "sent (construct :: 'c Space) = [(''page.listPages'', [JNum 1])] \<and>
         allPages (deliver fromJSON (respName ''page.listPages'' 1) [JNull, JArr pages] s) = pages \<and>
         events (deliver fromJSON (respName ''page.listPages'' 1) [JNull, JArr pages] s) =
           events s @ [PageListUpdated pages]"
proof -
  have w: "well_formed s" unfolding assms(1) by (rule well_formed_reachable)
  have c: "sent (construct :: 'c Space) = [(''page.listPages'', [JNum 1])]"
    by (simp add: construct_def wsCall_socket)
  from events_fire_init [of "[JNull, JArr pages]" pages fromJSON 0
      "s\<lparr>listeners := filter (\<lambda>l. fst l \<noteq> respName ''page.listPages'' 1) (listeners s)\<rparr>"]
  have "allPages (deliver fromJSON (respName ''page.listPages'' 1) [JNull, JArr pages] s) = pages \<and>
        events (deliver fromJSON (respName ''page.listPages'' 1) [JNull, JArr pages] s) =
          events s @ [PageListUpdated pages]"
    unfolding deliver_hit [OF w assms(2)] by (simp add: arg_def)
  with c show ?thesis by simp
qed

theorem initial_fetch_replaces_page_set_witness:
  "(respName ''page.listPages'' 1, 0, KInit) \<in>
     set (listeners (run (\<lambda>c. c) Some [Deliver ''pageCreated'' [JObj [(''name'', JStr ''z'')]]] construct)) \<and>
   allPages (run (\<lambda>c. c) Some [Deliver ''pageCreated'' [JObj [(''name'', JStr ''z'')]]] construct) =
     [JObj [(''name'', JStr ''z'')]] \<and>
   allPages (deliver Some (respName ''page.listPages'' 1)
       [JNull, JArr [JObj [(''name'', JStr ''a'')], JObj [(''name'', JStr ''b'')]]]
       (run (\<lambda>c. c) Some [Deliver ''pageCreated'' [JObj [(''name'', JStr ''z'')]]] construct)) =
     [JObj [(''name'', JStr ''a'')], JObj [(''name'', JStr ''b'')]]"
proof -
  define s :: "jsval Space"
    where "s = run (\<lambda>c. c) Some [Deliver ''pageCreated'' [JObj [(''name'', JStr ''z'')]]] construct"
  have l: "(respName ''page.listPages'' 1, 0, KInit) \<in> set (listeners s)"
    unfolding s_def by code_simp
  have a: "allPages s = [JObj [(''name'', JStr ''z'')]]" unfolding s_def by code_simp
  from initial_fetch_replaces_page_set [OF s_def l,
      where pages = "[JObj [(''name'', JStr ''a'')], JObj [(''name'', JStr ''b'')]]"]
  have b: "allPages (deliver Some (respName ''page.listPages'' 1)
       [JNull, JArr [JObj [(''name'', JStr ''a'')], JObj [(''name'', JStr ''b'')]]] s) =
     [JObj [(''name'', JStr ''a'')], JObj [(''name'', JStr ''b'')]]"
    by (rule conjunct1 [OF conjunct2])
  have "(respName ''page.listPages'' 1, 0, KInit) \<in> set (listeners s) \<and>
    allPages s = [JObj [(''name'', JStr ''z'')]] \<and>
    allPages (deliver Some (respName ''page.listPages'' 1)
       [JNull, JArr [JObj [(''name'', JStr ''a'')], JObj [(''name'', JStr ''b'')]]] s) =
     [JObj [(''name'', JStr ''a'')], JObj [(''name'', JStr ''b'')]]"
    by (intro conjI l a b)
  then show ?thesis unfolding s_def .
qed

section \<open>Page names\<close>

text \<open>
  C8, as amended: take the runs of the code that writes the page set (the callback of the
  initial fetch, the \<^verbatim>\<open>pageCreated\<close> handler, the \<^verbatim>\<open>pageDeleted\<close> handler) in the order in
  which they run. If the set has at most one entry per name before, the list handed to a
  callback has no name twice, and every \<^verbatim>\<open>pageCreated\<close> handler runs on a set that has no
  entry of its page's name at that moment, then the set has at most one entry per name
  after every one of them. The code itself never compares names when it adds; the
  \<^verbatim>\<open>pageDeleted\<close> handler needs no condition.
\<close>

theorem page_names_unique:
  assumes "distinct (map (field ''name'') (allPages s))"
    and "fresh_updates fromJSON us s"
  shows "distinct (map (field ''name'') (allPages (registry_run fromJSON us s)))"
  using assms
proof (induction us arbitrary: s)
  case Nil
  then show ?case by simp
next
  case (Cons u us)
  from Cons.prems have "distinct (map (field ''name'') (allPages (registry_step fromJSON u s)))"
    by (simp add: registry_step_unique)
  with Cons.prems(2) Cons.IH show ?case by simp
qed

theorem page_names_unique_witness:
  "distinct (map (field ''name'') (allPages (construct :: jsval Space))) \<and>
   fresh_updates Some
     [Created (JObj [(''name'', JStr ''c'')]),
      Listed (JArr [JObj [(''name'', JStr ''a'')], JObj [(''name'', JStr ''b'')]]),
      Created (JObj [(''name'', JStr ''c'')]),
      Deleted (JStr ''a'')] (construct :: jsval Space) \<and>
   map (field ''name'') (allPages (registry_run Some
     [Created (JObj [(''name'', JStr ''c'')]),
      Listed (JArr [JObj [(''name'', JStr ''a'')], JObj [(''name'', JStr ''b'')]]),
      Created (JObj [(''name'', JStr ''c'')]),
      Deleted (JStr ''a'')] (construct :: jsval Space))) = [JStr ''b'', JStr ''c''] \<and>
   distinct (map (field ''name'') (allPages (registry_run Some
     [Created (JObj [(''name'', JStr ''c'')]),
      Listed (JArr [JObj [(''name'', JStr ''a'')], JObj [(''name'', JStr ''b'')]]),
      Created (JObj [(''name'', JStr ''c'')]),
      Deleted (JStr ''a'')] (construct :: jsval Space))))"
proof -
  define us where "us =
     [Created (JObj [(''name'', JStr ''c'')]),
      Listed (JArr [JObj [(''name'', JStr ''a'')], JObj [(''name'', JStr ''b'')]]),
      Created (JObj [(''name'', JStr ''c'')]),
      Deleted (JStr ''a'')]"
  define s :: "jsval Space" where "s = construct"
  have d0: "distinct (map (field ''name'') (allPages s))" unfolding s_def by code_simp
  have a: "fresh_updates Some us s" unfolding us_def s_def by code_simp
  have n: "map (field ''name'') (allPages (registry_run Some us s)) = [JStr ''b'', JStr ''c'']"
    unfolding us_def s_def by code_simp
  note d = page_names_unique [OF d0 a]
  have "distinct (map (field ''name'') (allPages s)) \<and> fresh_updates Some us s \<and>
    map (field ''name'') (allPages (registry_run Some us s)) = [JStr ''b'', JStr ''c''] \<and>
    distinct (map (field ''name'') (allPages (registry_run Some us s)))"
    by (intro conjI d0 a n d)
  then show ?thesis unfolding us_def s_def .
qed

text \<open>
  C8 as stated fails: two \<^verbatim>\<open>pageCreated\<close> events for the same name leave two entries of
  that name in the set, each event's object being a reference of its own.
\<close>

theorem duplicate_page_names:
  "\<not> distinct (map (field ''name'') (allPages (run (\<lambda>c. c) Some
     [Deliver ''pageCreated'' [JObj [(''name'', JStr ''a'')]],
      Deliver ''pageCreated'' [JObj [(''name'', JStr ''a'')]]] construct)))"
  by code_simp

section \<open>Batches\<close>

text \<open>
  C9: start \<^verbatim>\<open>indexBatchSet(pageName, kvs)\<close> in any state of a session, let the server
  acknowledge the first \<open>n\<close> requests one after the other and answer the next with an error.
  Then the requests emitted are exactly those of the entries up to and including entry
  \<open>n\<close>, one \<^verbatim>\<open>index.set\<close> each, in list order; the promise of \<^verbatim>\<open>indexBatchSet\<close> is rejected
  with that error and has no other outcome; and no listener of the batch remains, so no
  later entry is ever attempted. When instead every request is acknowledged, one request
  per entry has been emitted, in list order, and the promise is resolved.
\<close>

theorem indexBatchSet_partial_failure:
  assumes "s0 = run toJSON fromJSON xs construct"
    and "n < length kvs" and "truthy err"
    and "s1 = snd (indexBatchSet pageName kvs s0)"
    and "s2 = acknowledge fromJSON n s1"
    and "s3 = deliver fromJSON (respName ''index.set'' (reqId s2)) [err] s2"
  shows "sent s3 = sent s0 @ batch_requests pageName (reqId s0 + 1) (take (Suc n) kvs) \<and>
         (\<forall>out. (fst (indexBatchSet pageName kvs s0), out) \<in> set (settled s3) \<longleftrightarrow>
                  out = Rejected (RemoteCallError err)) \<and>
         listeners s3 = listeners s0 \<and>
         sent (acknowledge fromJSON (length kvs) s1) =
           sent s0 @ batch_requests pageName (reqId s0 + 1) kvs \<and>
         (fst (indexBatchSet pageName kvs s0), Resolved (JS JUndefined)) \<in>
           set (settled (acknowledge fromJSON (length kvs) s1))"
proof -
  let ?p = "fst (indexBatchSet pageName kvs s0)"
  have i0: "invariant s0" unfolding assms(1) by (rule invariant_reachable)
  from assms(2) obtain key v rest where kvs: "kvs = (key, v) # rest" by (cases kvs) auto
  from batch_start [OF i0 assms(4) [unfolded kvs]]
  have i1: "invariant s1"
    and l1: "listeners s1 = listeners s0 @ [(respName ''index.set'' (reqId s1), Suc (Suc (promises s0)),
                               KBatch (promises s0) (Suc (promises s0)) pageName rest)]"
    and st1: "sent s1 = sent s0 @ batch_requests pageName (Suc (reqId s0)) [(key, v)]"
    and rq1: "reqId s1 = Suc (reqId s0)"
    and p: "?p = promises s0"
    by (simp_all add: kvs)
  have st: "sent s0 @ batch_requests pageName (Suc (reqId s0)) [(key, v)] @
              batch_requests pageName (Suc (Suc (reqId s0))) (take m rest) =
            sent s0 @ batch_requests pageName (reqId s0 + 1) (take (Suc m) kvs)" for m
    by (simp add: kvs)
  \<comment> \<open>the failing response\<close>
  from assms(2) kvs have n: "n \<le> length rest" by simp
  from batch_acks [OF i1 l1 n, of fromJSON] obtain r' q' where
    i2: "invariant s2"
    and l2: "listeners s2 = listeners s0 @ [(respName ''index.set'' (reqId s2), r',
                    KBatch (promises s0) q' pageName (drop n rest))]"
    and st2: "sent s2 = sent s1 @ batch_requests pageName (Suc (reqId s1)) (take n rest)"
    unfolding assms(5) by blast
  from i2 have w2: "well_formed s2" by (simp add: invariant_def)
  from batch_fail [OF w2 l2 assms(3) assms(6)]
  have l3: "listeners s3 = listeners s0" and st3: "sent s3 = sent s2"
    and se3: "settled s3 = settled s2 @ [(r', Rejected (RemoteCallError err)),
            (q', Rejected (RemoteCallError err)), (promises s0, Rejected (RemoteCallError err))]"
    by simp_all
  have a: "sent s3 = sent s0 @ batch_requests pageName (reqId s0 + 1) (take (Suc n) kvs)"
    using st [of n] by (simp add: st3 st2 st1 rq1)
  from se3 p have m: "(?p, Rejected (RemoteCallError err)) \<in> set (settled s3)" by simp
  have "invariant s3" unfolding assms(6) by (rule invariant_deliver [OF i2])
  then have d: "distinct (map fst (settled s3))" by (rule settled_distinct)
  have u: "\<And>out. (?p, out) \<in> set (settled s3) \<Longrightarrow> out = Rejected (RemoteCallError err)"
    using eq_key_imp_eq_value [OF d _ m] by simp
  have b: "\<forall>out. (?p, out) \<in> set (settled s3) \<longleftrightarrow> out = Rejected (RemoteCallError err)"
    using u m by blast
  \<comment> \<open>every entry acknowledged\<close>
  define t where "t = acknowledge fromJSON (length rest) s1"
  from batch_acks [OF i1 l1 le_refl, of fromJSON] obtain r'' q'' where
    it: "invariant t"
    and lt: "listeners t = listeners s0 @ [(respName ''index.set'' (reqId t), r'',
                    KBatch (promises s0) q'' pageName [])]"
    and stt: "sent t = sent s1 @ batch_requests pageName (Suc (reqId s1)) rest"
    unfolding t_def by auto
  from it have wt: "well_formed t" by (simp add: invariant_def)
  have len: "length kvs = Suc (length rest)" by (simp add: kvs)
  have e: "acknowledge fromJSON (length kvs) s1 =
      deliver fromJSON (respName ''index.set'' (reqId t)) [JNull] t"
    unfolding len t_def by (rule acknowledge_last)
  from batch_done [OF wt lt e]
  have dn: "sent (acknowledge fromJSON (length kvs) s1) = sent t"
    and ds: "settled (acknowledge fromJSON (length kvs) s1) = settled t @ [(r'', Resolved (JS JUndefined)),
            (q'', Resolved (JS JUndefined)), (promises s0, Resolved (JS JUndefined))]"
    by simp_all
  have "sent t = sent s0 @ batch_requests pageName (reqId s0 + 1) kvs"
    by (simp add: stt st1 rq1 kvs)
  with dn have c: "sent (acknowledge fromJSON (length kvs) s1) =
           sent s0 @ batch_requests pageName (reqId s0 + 1) kvs" by simp
  have c': "(?p, Resolved (JS JUndefined)) \<in> set (settled (acknowledge fromJSON (length kvs) s1))"
    unfolding ds p by simp
  from a b l3 c c' show ?thesis by blast
qed

theorem indexBatchSet_partial_failure_witness:
  "(1::nat) < length [(''k1'', JNum 1), (''k2'', JNum 2), (''k3'', JNum 3)] \<and>
   truthy (JStr ''disk full'') \<and>
   sent (deliver Some
          (respName ''index.set'' (reqId (acknowledge Some 1
             (snd (indexBatchSet ''page'' [(''k1'', JNum 1), (''k2'', JNum 2), (''k3'', JNum 3)]
                (run (\<lambda>c. c) Some [] construct))))))
          [JStr ''disk full'']
          (acknowledge Some 1
             (snd (indexBatchSet ''page'' [(''k1'', JNum 1), (''k2'', JNum 2), (''k3'', JNum 3)]
                (run (\<lambda>c. c) Some [] construct))))) =
     [(''page.listPages'', [JNum 1]),
      (''index.set'', [JNum 2, JStr ''page'', JStr ''k1'', JNum 1]),
      (''index.set'', [JNum 3, JStr ''page'', JStr ''k2'', JNum 2])] \<and>
   (1, Rejected (RemoteCallError (JStr ''disk full''))) \<in>
     set (settled (deliver Some
          (respName ''index.set'' (reqId (acknowledge Some 1
             (snd (indexBatchSet ''page'' [(''k1'', JNum 1), (''k2'', JNum 2), (''k3'', JNum 3)]
                (run (\<lambda>c. c) Some [] construct))))))
          [JStr ''disk full'']
          (acknowledge Some 1
             (snd (indexBatchSet ''page'' [(''k1'', JNum 1), (''k2'', JNum 2), (''k3'', JNum 3)]
                (run (\<lambda>c. c) Some [] construct))))))"
proof -
  define kvs :: "KV list" where "kvs = [(''k1'', JNum 1), (''k2'', JNum 2), (''k3'', JNum 3)]"
  define s0 :: "jsval Space" where "s0 = run (\<lambda>c. c) Some [] construct"
  define s1 where "s1 = snd (indexBatchSet ''page'' kvs s0)"
  define s2 where "s2 = acknowledge Some 1 s1"
  define s3 where "s3 = deliver Some (respName ''index.set'' (reqId s2)) [JStr ''disk full''] s2"
  have n: "1 < length kvs" by (simp add: kvs_def)
  have e: "truthy (JStr ''disk full'')" by simp
  have f0: "sent s0 = [(''page.listPages'', [JNum 1])]" "reqId s0 = 1" unfolding s0_def by code_simp+
  have f1: "fst (indexBatchSet ''page'' kvs s0) = 1" unfolding s0_def kvs_def by code_simp
  note T = indexBatchSet_partial_failure [OF s0_def n e s1_def s2_def s3_def]
  from T have "sent s3 = sent s0 @ batch_requests ''page'' (reqId s0 + 1) (take (Suc 1) kvs)"
    by (rule conjunct1)
  then have a: "sent s3 = [(''page.listPages'', [JNum 1]),
      (''index.set'', [JNum 2, JStr ''page'', JStr ''k1'', JNum 1]),
      (''index.set'', [JNum 3, JStr ''page'', JStr ''k2'', JNum 2])]"
    by (simp add: f0 kvs_def)
  from T have "\<forall>out. (fst (indexBatchSet ''page'' kvs s0), out) \<in> set (settled s3) \<longleftrightarrow>
      out = Rejected (RemoteCallError (JStr ''disk full''))"
    by (rule conjunct1 [OF conjunct2])
  then have b: "(1, Rejected (RemoteCallError (JStr ''disk full''))) \<in> set (settled s3)"
    by (simp add: f1)
  have "1 < length kvs \<and> truthy (JStr ''disk full'') \<and>
    sent s3 = [(''page.listPages'', [JNum 1]),
      (''index.set'', [JNum 2, JStr ''page'', JStr ''k1'', JNum 1]),
      (''index.set'', [JNum 3, JStr ''page'', JStr ''k2'', JNum 2])] \<and>
    (1, Rejected (RemoteCallError (JStr ''disk full''))) \<in> set (settled s3)"
    by (intro conjI n e a b)
  then show ?thesis unfolding s3_def s2_def s1_def s0_def kvs_def .
qed

section \<open>Updates through the wire\<close>

text \<open>
  C4, as amended: serialising an update as \<^verbatim>\<open>pushUpdates\<close> does and deserialising the result
  as \<^verbatim>\<open>pullUpdates\<close> does yields the same client identifier and, where the library's
  \<^verbatim>\<open>fromJSON\<close> inverts its \<^verbatim>\<open>toJSON\<close> on the change set, the same change set, and no
  effects: \<^verbatim>\<open>pullUpdates\<close> reads the wire field \<^verbatim>\<open>effects\<close>, which the pushed form, with its
  field \<^verbatim>\<open>cursors\<close>, does not have. From a wire update that has a field \<^verbatim>\<open>effects\<close>, each
  element's \<^verbatim>\<open>value\<close> is rebuilt as a cursor effect.
\<close>

theorem push_then_pull_update:
  "(fromJSON (toJSON (changes u)) = Some (changes u) \<longrightarrow>
      fromWire fromJSON (toWire toJSON u) =
        Inr \<lparr>clientID = JStr (clientID u), changes = changes u, effects = None\<rparr>) \<and>
   (fromJSON j = Some c \<longrightarrow>
      fromWire fromJSON
        (JObj [(''clientID'', cid), (''changes'', j),
               (''effects'', JArr (map (\<lambda>v. JObj [(''value'', v)]) vs))]) =
        Inr \<lparr>clientID = cid, changes = c, effects = Some (map cursorEffect_of vs)\<rparr>)"
proof -
  have "JNull \<notin> set (map (\<lambda>v. JObj [(''value'', v)]) vs)"
    "JUndefined \<notin> set (map (\<lambda>v. JObj [(''value'', v)]) vs)" by auto
  then show ?thesis
    by (auto simp: fromWire_def toWire_def comp_def simp del: set_map)
qed

theorem push_then_pull_update_witness:
  "Some ((\<lambda>c. c) (changes \<lparr>clientID = ''c1'', changes = JArr [JNum 3], effects = None\<rparr>)) =
     Some (JArr [JNum 3]) \<and>
   fromWire Some (toWire (\<lambda>c. c) \<lparr>clientID = ''c1'', changes = JArr [JNum 3],
        effects = None\<rparr>) =
     Inr \<lparr>clientID = JStr ''c1'', changes = JArr [JNum 3], effects = None\<rparr> \<and>
   fromWire Some (JObj [(''clientID'', JStr ''c1''), (''changes'', JArr [JNum 3]),
        (''effects'', JArr (map (\<lambda>v. JObj [(''value'', v)]) [JNum 7]))]) =
     Inr \<lparr>clientID = JStr ''c1'', changes = JArr [JNum 3],
          effects = Some (map cursorEffect_of [JNum 7])\<rparr>"
  using push_then_pull_update [of Some "\<lambda>c. c"
      "\<lparr>clientID = ''c1'', changes = JArr [JNum 3], effects = None\<rparr>"
      "JArr [JNum 3]" "JArr [JNum 3]" "JStr ''c1''" "[JNum 7]"]
  by simp

text \<open>
  C4 as stated fails: the pushed form carries the cursor value 7 in \<^verbatim>\<open>cursors\<close>, and the
  update deserialised from it has no effects.
\<close>

theorem pulled_effects_lost:
  "field ''cursors'' (toWire (\<lambda>c. c) \<lparr>clientID = ''c1'', changes = JArr [JNum 3],
        effects = Some [StateEffect cursorEffect (JNum 7)]\<rparr>) = JArr [JNum 7] \<and>
   fromWire Some (toWire (\<lambda>c. c) \<lparr>clientID = ''c1'', changes = JArr [JNum 3],
        effects = Some [StateEffect cursorEffect (JNum 7)]\<rparr>) =
     Inr \<lparr>clientID = JStr ''c1'', changes = JArr [JNum 3], effects = None\<rparr>"
  by (simp add: toWire_def fromWire_def)

end
